theory Spec2Isabelle
  imports Main "HOL-Library.Sublist"
begin

section \<open>Text and errors\<close>

text \<open>
  Text is a Python 2 unicode string, as the request and the datastore deliver it, with
  code points below 256: a list of characters, one for each code point. The exceptions
  that the modelled code can raise are values of the type \<open>error\<close>; a computation that
  may raise returns \<open>error + 'a\<close> with \<open>Inl\<close> for the exception.
\<close>

datatype error = TypeError | AttributeError | BadKeyError | ValueError | KeyError

text \<open>Python's \<open>s[a:b]\<close> for non-negative \<open>a\<close> and \<open>b\<close>; empty when \<open>b \<le> a\<close>.\<close>

definition slice :: "'a list \<Rightarrow> nat \<Rightarrow> nat \<Rightarrow> 'a list" where
  "slice s a b = take (b - a) (drop a s)"

section \<open>Regular expressions of the \<open>re\<close> module\<close>

text \<open>
  The fragment of the pattern language that \<open>wiki.py\<close> uses: a literal string, a
  character set \<open>[...]\<close>, a negated set \<open>[^...]\<close>, the word boundary \<open>\b\<close>, concatenation,
  alternation \<open>|\<close>, the greedy repetition \<open>+\<close> and a numbered capturing group.
\<close>

datatype regex =
    Lit string
  | Set "char list"
  | NotSet "char list"
  | WordB
  | Seq regex regex
  | Alt regex regex
  | Plus regex
  | Grp nat regex

text \<open>
  A matcher state is the current position and the groups captured so far (the most
  recent capture of a group first).
\<close>

type_synonym caps = "(nat \<times> nat \<times> nat) list"
type_synonym mstate = "nat \<times> caps"

text \<open>\<open>\w\<close> without the LOCALE and UNICODE flags is \<open>[a-zA-Z0-9_]\<close>.\<close>

definition upper_digit :: "char list" where
  "upper_digit = ''ABCDEFGHIJKLMNOPQRSTUVWXYZ0123456789''"

definition word_chars :: "char list" where
  "word_chars = ''abcdefghijklmnopqrstuvwxyz'' @ upper_digit @ ''_''"

definition is_word_at :: "string \<Rightarrow> nat \<Rightarrow> bool" where
  "is_word_at s i = (i < length s \<and> s ! i \<in> set word_chars)"

text \<open>
  \<open>\b\<close> holds at \<open>p\<close> when exactly one of the characters before and after \<open>p\<close> is a word
  character; the positions outside the string count as non-word.
\<close>

definition at_boundary :: "string \<Rightarrow> nat \<Rightarrow> bool" where
  "at_boundary s p = ((0 < p \<and> is_word_at s (p - 1)) \<noteq> is_word_at s p)"

text \<open>
  The greedy repetition of a body \<open>f\<close>: after one iteration of the body that ends at
  \<open>st'\<close>, first every way of iterating further from \<open>st'\<close> is tried, then \<open>st'\<close> itself.
  The engine does not iterate again after an iteration that consumed nothing.
\<close>

function plus_iter :: "(mstate \<Rightarrow> mstate list) \<Rightarrow> string \<Rightarrow> mstate \<Rightarrow> mstate list" where
  "plus_iter f s st =
     concat (map (\<lambda>st'. (if fst st < fst st' \<and> fst st' \<le> length s
                          then plus_iter f s st' else []) @ [st'])
                 (f st))"
  by pat_completeness auto
termination
  by (relation "measure (\<lambda>(f, s, st). length s - fst st)") auto

declare plus_iter.simps [simp del]

text \<open>
  The backtracking matcher: \<open>ends r s st\<close> lists, in the order in which the engine
  tries them, the states in which a match of \<open>r\<close> that starts in state \<open>st\<close> can end.
  The engine's answer is the first of them.
\<close>

primrec ends :: "regex \<Rightarrow> string \<Rightarrow> mstate \<Rightarrow> mstate list" where
  "ends (Lit w) s = (\<lambda>st. if take (length w) (drop (fst st) s) = w
                           then [(fst st + length w, snd st)] else [])"
| "ends (Set cs) s = (\<lambda>st. if fst st < length s \<and> s ! fst st \<in> set cs
                           then [(Suc (fst st), snd st)] else [])"
| "ends (NotSet cs) s = (\<lambda>st. if fst st < length s \<and> s ! fst st \<notin> set cs
                           then [(Suc (fst st), snd st)] else [])"
| "ends WordB s = (\<lambda>st. if at_boundary s (fst st) then [st] else [])"
| "ends (Seq a b) s = (\<lambda>st. concat (map (ends b s) (ends a s st)))"
| "ends (Alt a b) s = (\<lambda>st. ends a s st @ ends b s st)"
| "ends (Plus r) s = plus_iter (ends r s) s"
| "ends (Grp n r) s = (\<lambda>st. map (\<lambda>st'. (fst st', (n, fst st, fst st') # snd st'))
                                (ends r s st))"

definition match_at :: "regex \<Rightarrow> string \<Rightarrow> nat \<Rightarrow> mstate option" where
  "match_at r s p = (case ends r s (p, []) of [] \<Rightarrow> None | st # _ \<Rightarrow> Some st)"

text \<open>
  A match object: the subject string, the span of the whole match and the captures.
  \<open>group\<close> is \<open>None\<close> for a group that did not take part in the match.
\<close>

record match =
  m_string :: string
  m_start :: nat
  m_end :: nat
  m_caps :: caps

definition group :: "match \<Rightarrow> nat \<Rightarrow> string option" where
  "group m n =
     (if n = 0 then Some (slice (m_string m) (m_start m) (m_end m))
      else case map_of (m_caps m) n of
             None \<Rightarrow> None
           | Some (a, b) \<Rightarrow> Some (slice (m_string m) a b))"

text \<open>
  \<open>regexp.finditer(content)\<close>: the scan tries the start positions from left to right,
  up to and including the end of the string. After a match the scan resumes at its end;
  after an empty match it resumes one position further.
\<close>

function finditer :: "regex \<Rightarrow> string \<Rightarrow> nat \<Rightarrow> match list" where
  "finditer r s p =
     (if length s < p then []
      else case match_at r s p of
             None \<Rightarrow> finditer r s (Suc p)
           | Some (e, c) \<Rightarrow>
               \<lparr>m_string = s, m_start = p, m_end = e, m_caps = c\<rparr>
                 # finditer r s (if e \<le> p then Suc p else e))"
  by pat_completeness auto
termination
  by (relation "measure (\<lambda>(r, s, p). Suc (length s) - p)") auto

declare finditer.simps [simp del]

section \<open>Transform\<close>

text \<open>
  \<open>Transform.run\<close>. A subclass supplies \<open>regexp\<close> and \<open>replace\<close>; \<open>replace\<close> may
  read and write the state \<open>'st\<close> and may raise, and an exception leaves the loop.
\<close>

type_synonym 'st replace = "match \<Rightarrow> 'st \<Rightarrow> (error + string) \<times> 'st"

fun run_loop :: "'st replace \<Rightarrow> string \<Rightarrow> match list \<Rightarrow> nat \<Rightarrow> string list \<Rightarrow> 'st
                 \<Rightarrow> (error + string list \<times> nat) \<times> 'st" where
  "run_loop replace content [] offset parts st = (Inr (parts, offset), st)"
| "run_loop replace content (m # ms) offset parts st =
     (case replace m st of
        (Inl e, st') \<Rightarrow> (Inl e, st')
      | (Inr r, st') \<Rightarrow>
          run_loop replace content ms (m_end m)
            (parts @ [slice content offset (m_start m), r]) st')"

definition run :: "regex \<Rightarrow> 'st replace \<Rightarrow> string \<Rightarrow> 'st \<Rightarrow> (error + string) \<times> 'st" where
  "run regexp replace content st =
     (case run_loop replace content (finditer regexp content 0) 0 [] st of
        (Inl e, st') \<Rightarrow> (Inl e, st')
      | (Inr (parts, offset), st') \<Rightarrow>
          (Inr (concat (parts @ [drop offset content])), st'))"

section \<open>The datastore, memcache and the request context\<close>

type_synonym time = nat

record user =
  nickname :: string

datatype kind = PageKind | PageHistoryKind

text \<open>
  A \<open>datastore.Entity\<close> is a dictionary with a kind and, once it has been put, a key.
  The properties that \<open>wiki.py\<close> does not always set are optional.
\<close>

record entity =
  e_kind :: kind
  e_key :: "nat option"
  e_name :: string
  e_created :: time
  e_content :: string
  e_modified :: "time option"
  e_user :: "user option"
  e_remote_addr :: "string option"
  e_comment :: "string option"

text \<open>
  The world outside a \<open>Page\<close> object: the entities of the datastore in the order of
  their keys, the next key to assign, memcache (the entities stored under
  \<open>'page_' + name\<close>, the strings stored under \<open>'content_' + name\<close>; both are indexed by the
  whole memcache key), the clock read by \<open>datetime.datetime.now()\<close> and the user returned
  by \<open>users.GetCurrentUser()\<close>.
\<close>

record world =
  datastore :: "entity list"
  next_id :: nat
  mc_entities :: "string \<rightharpoonup> entity"
  mc_text :: "string \<rightharpoonup> string"
  clock :: time
  current_user :: "user option"

text \<open>
  \<open>datastore.Put\<close>: an entity without a key gets the next key and is added; an entity
  with a key replaces the stored entity of that key.
\<close>

definition Put :: "entity \<Rightarrow> world \<Rightarrow> world" where
  "Put e w =
     (case e_key e of
        None \<Rightarrow> w\<lparr>datastore := datastore w @ [e\<lparr>e_key := Some (next_id w)\<rparr>],
                  next_id := Suc (next_id w)\<rparr>
      | Some k \<Rightarrow>
          (if list_ex (\<lambda>x. e_key x = Some k) (datastore w)
           then w\<lparr>datastore := map (\<lambda>x. if e_key x = Some k then e else x) (datastore w)\<rparr>
           else w\<lparr>datastore := datastore w @ [e]\<rparr>))"

text \<open>
  \<open>datetime.datetime.now()\<close>: the clock is read and moves on, so that a later reading
  is a later time.
\<close>

definition datetime_now :: "world \<Rightarrow> time \<times> world" where
  "datetime_now w = (clock w, w\<lparr>clock := Suc (clock w)\<rparr>)"

definition memcache_delete :: "string \<Rightarrow> world \<Rightarrow> world" where
  "memcache_delete k w = w\<lparr>mc_entities := (mc_entities w)(k := None),
                           mc_text := (mc_text w)(k := None)\<rparr>"

text \<open>A query on a kind with the filter \<open>name =\<close>, in key order.\<close>

definition query_name :: "kind \<Rightarrow> string \<Rightarrow> world \<Rightarrow> entity list" where
  "query_name k n w = filter (\<lambda>e. e_kind e = k \<and> e_name e = n) (datastore w)"

section \<open>Page\<close>

record page =
  p_name :: string
  p_entity :: "entity option"
  p_content :: string
  p_user :: "user option"
  p_created :: time
  p_modified :: time
  p_remote_addr :: "string option"
  p_comment :: "string option"

text \<open>\<open>cgi.escape(s)\<close> without \<open>quote\<close>.\<close>

definition cgi_escape :: "string \<Rightarrow> string" where
  \<open>cgi_escape s =
     concat (map (\<lambda>c. if c = CHR ''&'' then ''&amp;''
                       else if c = CHR ''<'' then ''&lt;''
                       else if c = CHR ''>'' then ''&gt;'' else [c]) s)\<close>

text \<open>
  \<open>Page.__init__\<close>. An entity always has properties, so it is true as a condition.
  The attributes \<open>remote_addr\<close> and \<open>comment\<close> do not exist until a handler sets them.
\<close>

definition Page_init :: "string \<Rightarrow> entity option \<Rightarrow> world \<Rightarrow> page \<times> world" where
  "Page_init name ent w =
     (case ent of
        Some e \<Rightarrow>
          (\<lparr>p_name = name, p_entity = Some e, p_content = e_content e, p_user = e_user e,
            p_created = e_created e,
            p_modified = (case e_modified e of Some t \<Rightarrow> t | None \<Rightarrow> e_created e),
            p_remote_addr = None, p_comment = None\<rparr>, w)
      | None \<Rightarrow>
          (case datetime_now w of
             (now, w') \<Rightarrow>
               (\<lparr>p_name = name, p_entity = None,
                 p_content = ''<h1>'' @ cgi_escape name @ ''</h1>'', p_user = None,
                 p_created = now, p_modified = now,
                 p_remote_addr = None, p_comment = None\<rparr>, w')))"

definition history_url :: "page \<Rightarrow> string" where
  "history_url p = ''/'' @ p_name p @ ''?mode=history''"

definition edit_url :: "page \<Rightarrow> string" where
  "edit_url p = ''/'' @ p_name p @ ''?mode=edit''"

definition view_url :: "page \<Rightarrow> string" where
  "view_url p = ''/'' @ p_name p"

text \<open>\<open>name.replace('_', '')\<close>\<close>

definition strip_underscores :: "string \<Rightarrow> string" where
  "strip_underscores n = filter (\<lambda>c. c \<noteq> CHR ''_'') n"

text \<open>\<open>Page.load\<close>\<close>

definition Page_load :: "string \<Rightarrow> world \<Rightarrow> page \<times> world" where
  "Page_load name w =
     (case mc_entities w (''page_'' @ name) of
        Some data \<Rightarrow> Page_init name (Some data) w
      | None \<Rightarrow>
          (case query_name PageKind (strip_underscores name) w of
             [] \<Rightarrow> Page_init name None w
           | e # _ \<Rightarrow>
               Page_init name (Some e)
                 (w\<lparr>mc_entities := (mc_entities w)(''page_'' @ name \<mapsto> e)\<rparr>)))"

text \<open>\<open>Page.exists\<close>: the entity of the loaded page, as a truth value.\<close>

definition Page_exists :: "string \<Rightarrow> world \<Rightarrow> bool \<times> world" where
  "Page_exists name w = (case Page_load name w of (p, w') \<Rightarrow> (p_entity p \<noteq> None, w'))"

text \<open>
  \<open>Page.save_to_history\<close>. Reading \<open>self.remote_addr\<close> or \<open>self.comment\<close> before a handler
  has set it raises AttributeError.
\<close>

definition save_to_history :: "page \<Rightarrow> world \<Rightarrow> (error + unit) \<times> world" where
  "save_to_history p w =
     (case p_remote_addr p of
        None \<Rightarrow> (Inl AttributeError, w)
      | Some addr \<Rightarrow>
          (case p_comment p of
             None \<Rightarrow> (Inl AttributeError, w)
           | Some cmt \<Rightarrow>
               (Inr (),
                Put \<lparr>e_kind = PageHistoryKind, e_key = None, e_name = p_name p,
                     e_created = p_modified p, e_content = p_content p,
                     e_modified = None, e_user = current_user w,
                     e_remote_addr = Some addr, e_comment = Some cmt\<rparr> w)))"

text \<open>\<open>Page.save\<close>\<close>

definition save :: "page \<Rightarrow> world \<Rightarrow> (error + unit) \<times> world" where
  "save p w0 =
     (let (now, w) = datetime_now w0;
          ent = (case p_entity p of
                   Some e \<Rightarrow> e
                 | None \<Rightarrow> \<lparr>e_kind = PageKind, e_key = None, e_name = p_name p,
                            e_created = now, e_content = [], e_modified = None,
                            e_user = None, e_remote_addr = None, e_comment = None\<rparr>);
          ent = ent\<lparr>e_content := p_content p, e_modified := Some now,
                    e_user := current_user w\<rparr>;
          w = Put ent w;
          w = memcache_delete (''page_'' @ p_name p) w;
          w = memcache_delete (''content_'' @ p_name p) w
      in save_to_history p w)"

text \<open>\<open>Page.fetch_history\<close>: newest first, entities of equal time in key order.\<close>

definition fetch_history :: "page \<Rightarrow> world \<Rightarrow> entity list" where
  "fetch_history p w =
     take 1000 (sort_key (\<lambda>e. - int (e_created e)) (query_name PageHistoryKind (p_name p) w))"

text \<open>
  \<open>Page.load_from_history\<close>. \<open>datastore_types.Key(key)\<close> belongs to the App Engine SDK:
  it decodes the text of a key and raises BadKeyError when the text is malformed. The
  decoder is the parameter \<open>Key\<close>.
\<close>

definition load_from_history ::
  "(string \<Rightarrow> nat option) \<Rightarrow> string \<Rightarrow> string \<Rightarrow> world \<Rightarrow> error + page option" where
  "load_from_history Key name key w =
     (case Key key of
        None \<Rightarrow> Inl BadKeyError
      | Some k \<Rightarrow>
          (case filter (\<lambda>e. e_key e = Some k) (query_name PageHistoryKind name w) of
             [] \<Rightarrow> Inr None
           | e # _ \<Rightarrow> Inr (Some (fst (Page_init name (Some e) w)))))"

text \<open>
  \<open>splitlines(1)\<close> of a unicode string: the lines with their line ends. A line ends with
  \<open>\r\n\<close> or with one of the line breaks of Unicode, of which \<open>\n\<close>, \<open>\v\<close>, \<open>\f\<close>, \<open>\r\<close>,
  \<open>\x1c\<close>, \<open>\x1d\<close>, \<open>\x1e\<close> and \<open>\x85\<close> are below 256.
\<close>

definition linebreaks :: "char list" where
  "linebreaks = [CHR 0x0A, CHR 0x0B, CHR 0x0C, CHR 0x0D, CHR 0x1C, CHR 0x1D, CHR 0x1E, CHR 0x85]"

fun splitlines_from :: "string \<Rightarrow> string \<Rightarrow> string list" where
  "splitlines_from cur [] = (if cur = [] then [] else [cur])"
| "splitlines_from cur [c] = [cur @ [c]]"
| "splitlines_from cur (c # d # cs) =
     (if c = CHR 0x0D \<and> d = CHR 0x0A then (cur @ [c, d]) # splitlines_from [] cs
      else if c \<in> set linebreaks then (cur @ [c]) # splitlines_from [] (d # cs)
      else splitlines_from (cur @ [c]) (d # cs))"

definition splitlines :: "string \<Rightarrow> string list" where
  "splitlines s = splitlines_from [] s"

text \<open>
  \<open>Page.diff_history\<close>. \<open>strftime\<close> (the formatting of a time with the format of the
  source) and \<open>make_table\<close> (\<open>difflib.HtmlDiff().make_table\<close> with \<open>context=True\<close>)
  belong to the standard library and are parameters. \<open>page.user.nickname()\<close> raises
  AttributeError when \<open>page.user\<close> is \<open>None\<close>.
\<close>

definition diff_history ::
  "(time \<Rightarrow> string) \<Rightarrow> (string list \<Rightarrow> string list \<Rightarrow> string \<Rightarrow> string \<Rightarrow> string)
   \<Rightarrow> (string \<Rightarrow> nat option) \<Rightarrow> page \<Rightarrow> string \<Rightarrow> string \<Rightarrow> world
   \<Rightarrow> error + string option" where
  "diff_history strftime make_table Key p v1 v2 w =
     (case load_from_history Key (p_name p) v1 w of
        Inl e \<Rightarrow> Inl e
      | Inr page_v1 \<Rightarrow>
     (case load_from_history Key (p_name p) v2 w of
        Inl e \<Rightarrow> Inl e
      | Inr page_v2 \<Rightarrow>
     (case (page_v1, page_v2) of
        (Some q1, Some q2) \<Rightarrow>
          (case p_user q1 of
             None \<Rightarrow> Inl AttributeError
           | Some u1 \<Rightarrow>
          (case p_user q2 of
             None \<Rightarrow> Inl AttributeError
           | Some u2 \<Rightarrow>
               Inr (Some (make_table (splitlines (p_content q1)) (splitlines (p_content q2))
                    (''Edited on '' @ strftime (p_created q1) @ '' by '' @ nickname u1)
                    (''Edited on '' @ strftime (p_created q2) @ '' by '' @ nickname u2)))))
      | _ \<Rightarrow> Inr None)))"

section \<open>The transforms\<close>

text \<open>\<open>_VALID_WIKINAME = re.compile(r'([A-Z0-9])\w+(([A-Z0-9])\w+)+')\<close>\<close>

definition VALID_WIKINAME :: regex where
  "VALID_WIKINAME =
     Seq (Grp 1 (Set upper_digit))
    (Seq (Plus (Set word_chars))
         (Plus (Grp 2 (Seq (Grp 3 (Set upper_digit)) (Plus (Set word_chars))))))"

text \<open>\<open>WikiWords.replace\<close>\<close>

definition WikiWords_replace :: "world replace" where
  \<open>WikiWords_replace m w =
     (case group m 0 of
        None \<Rightarrow> (Inl TypeError, w)
      | Some wikiword \<Rightarrow>
          (case Page_exists wikiword w of
             (True, w') \<Rightarrow>
               (Inr (''<a class="wikiword" href="/'' @ wikiword @ ''">'' @ wikiword @ ''</a>''),
                w')
           | (False, w') \<Rightarrow>
               (Inr (''<a title="'' @ wikiword
                     @ '' does not exist yet. Click to create it." class="wikiword_new" href="/''
                     @ wikiword @ ''?mode=edit">'' @ wikiword @ ''?</a>''),
                w')))\<close>

text \<open>
  The pattern of \<open>AutoLink\<close>:
  \<open>([^"])\b((http|https)://[^ \t\n\r<>\(\)&"]+[^ \t\n\r<>\(\)&"\.])\<close>
\<close>

definition url_stop :: "char list" where
  \<open>url_stop = [CHR '' '', CHR 0x09, CHR 0x0A, CHR 0x0D] @ ''<>()&"''\<close>

definition AutoLink_regexp :: regex where
  \<open>AutoLink_regexp =
     Seq (Grp 1 (NotSet ''"''))
    (Seq WordB
         (Grp 2 (Seq (Grp 3 (Alt (Lit ''http'') (Lit ''https'')))
                (Seq (Lit ''://'')
                (Seq (Plus (NotSet url_stop))
                     (NotSet (url_stop @ ''.'')))))))\<close>

text \<open>\<open>'%s' % x\<close> for a string or \<open>None\<close>.\<close>

definition percent_s :: "string option \<Rightarrow> string" where
  "percent_s x = (case x of None \<Rightarrow> ''None'' | Some t \<Rightarrow> t)"

text \<open>\<open>AutoLink.replace\<close>; \<open>None + str\<close> raises TypeError.\<close>

definition AutoLink_replace :: "'st replace" where
  \<open>AutoLink_replace m st =
     (let url = group m 2
      in case group m 1 of
           None \<Rightarrow> (Inl TypeError, st)
         | Some g1 \<Rightarrow>
             (Inr (g1 @ ''<a class="autourl" href="'' @ percent_s url @ ''">''
                   @ percent_s url @ ''</a>''), st))\<close>

text \<open>
  \<open>urllib.quote(s)\<close> of Python 2.7 with the default \<open>safe='/'\<close>. The function looks every
  character up in a table whose keys are the 256 byte strings of length one: letters,
  digits and \<open>_.-/\<close> stay, every other character below 128 becomes \<open>%XX\<close> with upper-case
  hexadecimal digits. A unicode character above 127 is equal to no key of the table, and
  the lookup raises KeyError.
\<close>

definition always_safe :: "char list" where
  "always_safe = ''ABCDEFGHIJKLMNOPQRSTUVWXYZ'' @ ''abcdefghijklmnopqrstuvwxyz''
                 @ ''0123456789'' @ ''_.-''"

definition hex_digit :: "nat \<Rightarrow> char" where
  "hex_digit n = ''0123456789ABCDEF'' ! (n mod 16)"

definition quote_char :: "char \<Rightarrow> error + string" where
  "quote_char c =
     (if c \<in> set (always_safe @ ''/'') then Inr [c]
      else if (of_char c :: nat) < 128
      then Inr [CHR ''%'', hex_digit (of_char c div 16), hex_digit (of_char c mod 16)]
      else Inl KeyError)"

fun quote :: "string \<Rightarrow> error + string" where
  "quote [] = Inr []"
| "quote (c # cs) =
     (case quote_char c of
        Inl e \<Rightarrow> Inl e
      | Inr q \<Rightarrow> (case quote cs of Inl e \<Rightarrow> Inl e | Inr r \<Rightarrow> Inr (q @ r)))"

text \<open>
  \<open>urlparse.urlparse(url)\<close> of Python 2.7, as far as it can raise. \<open>urlsplit\<close> takes the
  scheme off: the text before the first colon, when it is \<open>http\<close>, or when it consists of
  scheme characters and the rest is not a port number. When what remains starts with
  \<open>//\<close>, the netloc is the text after \<open>//\<close> up to the first of \<open>/?#\<close>, and a netloc with
  one of the brackets \<open>[\<close> and \<open>]\<close> but not the other raises ValueError. The model returns
  the netloc; the rest of the result is not modelled.
\<close>

definition scheme_chars :: "char list" where
  "scheme_chars = ''abcdefghijklmnopqrstuvwxyz'' @ ''ABCDEFGHIJKLMNOPQRSTUVWXYZ''
                  @ ''0123456789'' @ ''+-.''"

definition after_scheme :: "string \<Rightarrow> string" where
  "after_scheme url =
     (let i = length (takeWhile (\<lambda>c. c \<noteq> CHR '':'') url);
          rest = drop (Suc i) url
      in if CHR '':'' \<in> set url \<and> 0 < i
         then if take i url = ''http'' then rest
              else if list_all (\<lambda>c. c \<in> set scheme_chars) (take i url)
                      \<and> (rest = [] \<or> list_ex (\<lambda>c. c \<notin> set ''0123456789'') rest)
              then rest else url
         else url)"

definition urlparse :: "string \<Rightarrow> error + string" where
  "urlparse url =
     (let rest = after_scheme url
      in if take 2 rest = ''//''
         then let netloc = takeWhile (\<lambda>c. c \<notin> set ''/?#'') (drop 2 rest)
              in if (CHR ''['' \<in> set netloc \<and> CHR '']'' \<notin> set netloc)
                    \<or> (CHR '']'' \<in> set netloc \<and> CHR ''['' \<notin> set netloc)
                 then Inl ValueError else Inr netloc
         else Inr [])"

text \<open>The pattern of \<open>HideReferers\<close>: \<open>href="(http[^"]+)"\<close>\<close>

definition HideReferers_regexp :: regex where
  \<open>HideReferers_regexp =
     Seq (Lit ''href="'')
    (Seq (Grp 1 (Seq (Lit ''http'') (Plus (NotSet ''"''))))
         (Lit ''"''))\<close>

text \<open>
  \<open>HideReferers.replace\<close>. The result of \<open>urlparse.urlparse(url)\<close> is not used, but the
  call can raise; \<open>urlparse(None)\<close> raises AttributeError. Then \<open>urllib.quote(url)\<close> can
  raise.
\<close>

definition HideReferers_replace :: "'st replace" where
  \<open>HideReferers_replace m st =
     (case group m 1 of
        None \<Rightarrow> (Inl AttributeError, st)
      | Some url \<Rightarrow>
          (case urlparse url of
             Inl e \<Rightarrow> (Inl e, st)
           | Inr parsed \<Rightarrow>
               (case quote url of
                  Inl e \<Rightarrow> (Inl e, st)
                | Inr quoted \<Rightarrow>
                    (Inr (''href="'' @ (''http://www.google.com/url?sa=D&amp;q='' @ quoted)
                          @ ''"''), st))))\<close>

text \<open>\<open>Page.wikified_content\<close>\<close>

definition wikified_content :: "page \<Rightarrow> world \<Rightarrow> (error + string) \<times> world" where
  "wikified_content p w =
     (case mc_text w (''content_'' @ p_name p) of
        Some data \<Rightarrow> (Inr data, w)
      | None \<Rightarrow>
          (case run AutoLink_regexp AutoLink_replace (p_content p) w of
             (Inl e, w1) \<Rightarrow> (Inl e, w1)
           | (Inr c1, w1) \<Rightarrow>
          (case run VALID_WIKINAME WikiWords_replace c1 w1 of
             (Inl e, w2) \<Rightarrow> (Inl e, w2)
           | (Inr c2, w2) \<Rightarrow> run HideReferers_regexp HideReferers_replace c2 w2)))"

section \<open>The handler of POST requests\<close>

datatype redirect = ToLogin | ToUrl string

text \<open>
  \<open>WikiPage.post\<close>, with the values of the request as arguments. The result lists the
  redirects issued. The handler does not return after the redirect for an invalid name.
\<close>

definition post :: "string \<Rightarrow> string \<Rightarrow> string \<Rightarrow> string \<Rightarrow> world
                    \<Rightarrow> (error + redirect list) \<times> world" where
  "post page_name content remote_addr comment w =
     (let rs = (if match_at VALID_WIKINAME page_name 0 = None then [ToUrl ''/''] else [])
      in if current_user w = None then (Inr (rs @ [ToLogin]), w)
         else case Page_load page_name w of
                (p, w1) \<Rightarrow>
                  (let p = p\<lparr>p_content := content, p_remote_addr := Some remote_addr,
                              p_comment := Some comment\<rparr>
                   in case save p w1 of
                        (Inl e, w2) \<Rightarrow> (Inl e, w2)
                      | (Inr u, w2) \<Rightarrow> (Inr (rs @ [ToUrl (view_url p)]), w2)))"

section \<open>What the specification says of a transform\<close>

text \<open>
  The matches of a scan that starts at \<open>from\<close>: each is the match that the engine finds at
  its start, no position between the resumption point and its start has a match, and
  the scan resumes at its end (one position further after an empty match). After the
  last match no position up to the end of the text has a match.
\<close>

fun leftmost_matches :: "regex \<Rightarrow> string \<Rightarrow> nat \<Rightarrow> match list \<Rightarrow> bool" where
  "leftmost_matches r text from [] =
     list_all (\<lambda>q. match_at r text q = None) [from ..< Suc (length text)]"
| "leftmost_matches r text from (m # ms) =
     (from \<le> m_start m \<and> m_start m \<le> m_end m \<and> m_end m \<le> length text
      \<and> m_string m = text
      \<and> match_at r text (m_start m) = Some (m_end m, m_caps m)
      \<and> list_all (\<lambda>q. match_at r text q = None) [from ..< m_start m]
      \<and> leftmost_matches r text (if m_end m = m_start m then Suc (m_end m) else m_end m) ms)"

text \<open>The spans of the matches lie in the text, in order, without overlap.\<close>

fun spans_ordered :: "string \<Rightarrow> nat \<Rightarrow> match list \<Rightarrow> bool" where
  "spans_ordered text prev_end [] = True"
| "spans_ordered text prev_end (m # ms) =
     (prev_end \<le> m_start m \<and> m_start m \<le> m_end m \<and> m_end m \<le> length text
      \<and> m_string m = text \<and> spans_ordered text (m_end m) ms)"

text \<open>
  The output for a list of matches: for each match the text since the end of the previous
  match, then the replacement; after the last match the rest of the text.
\<close>

fun emit :: "'st replace \<Rightarrow> string \<Rightarrow> nat \<Rightarrow> match list \<Rightarrow> 'st \<Rightarrow> (error + string) \<times> 'st" where
  "emit replace text prev_end [] st = (Inr (drop prev_end text), st)"
| "emit replace text prev_end (m # ms) st =
     (case replace m st of
        (Inl e, st') \<Rightarrow> (Inl e, st')
      | (Inr r, st') \<Rightarrow>
          (case emit replace text (m_end m) ms st' of
             (Inl e, st'') \<Rightarrow> (Inl e, st'')
           | (Inr rest, st'') \<Rightarrow> (Inr (slice text prev_end (m_start m) @ r @ rest), st'')))"

text \<open>The replacement that puts the matched text back.\<close>

definition matched_text :: "'st replace" where
  "matched_text m st = (Inr (slice (m_string m) (m_start m) (m_end m)), st)"

text \<open>A step of the matcher moves forward and stays inside the text.\<close>

definition advances :: "string \<Rightarrow> mstate \<Rightarrow> mstate \<Rightarrow> bool" where
  "advances s st st' = (fst st \<le> fst st' \<and> (fst st \<le> length s \<longrightarrow> fst st' \<le> length s))"

text \<open>
  A run of characters with the property \<open>P\<close> from the position of \<open>a\<close> to the position
  of \<open>b\<close>, which is not empty and captures nothing.
\<close>

definition run_of :: "(char \<Rightarrow> bool) \<Rightarrow> string \<Rightarrow> mstate \<Rightarrow> mstate \<Rightarrow> bool" where
  "run_of P s a b = (fst a < fst b \<and> fst b \<le> length s \<and> snd b = snd a
                     \<and> (\<forall>i. fst a \<le> i \<and> i < fst b \<longrightarrow> P (s ! i)))"

text \<open>
  At least \<open>n\<close> characters lie between the positions of \<open>a\<close> and \<open>b\<close>, and all of them
  have the property \<open>P\<close>.
\<close>

definition chars_between :: "(char \<Rightarrow> bool) \<Rightarrow> string \<Rightarrow> nat \<Rightarrow> mstate \<Rightarrow> mstate \<Rightarrow> bool" where
  "chars_between P s n a b = (fst a + n \<le> fst b \<and> fst b \<le> length s
                              \<and> (\<forall>i. fst a \<le> i \<and> i < fst b \<longrightarrow> P (s ! i)))"

text \<open>The world before any request, with the user of the requests to come.\<close>

definition empty_world :: "user option \<Rightarrow> world" where
  "empty_world u = \<lparr>datastore = [], next_id = 0, mc_entities = Map.empty,
                    mc_text = Map.empty, clock = 0, current_user = u\<rparr>"

section \<open>What the specification says of history and diff\<close>

text \<open>An identifier resolves when the datastore has a history entry of the page with that key.\<close>

definition stored_history :: "string \<Rightarrow> nat \<Rightarrow> world \<Rightarrow> bool" where
  "stored_history name k w =
     list_ex (\<lambda>e. e_kind e = PageHistoryKind \<and> e_name e = name \<and> e_key e = Some k)
       (datastore w)"

text \<open>Every history entry in the datastore has an author.\<close>

definition history_has_authors :: "world \<Rightarrow> bool" where
  "history_has_authors w =
     list_all (\<lambda>e. e_kind e = PageHistoryKind \<longrightarrow> e_user e \<noteq> None) (datastore w)"

text \<open>
  Stand-ins for the library functions in the examples: the text of a key is its decimal
  number and any other text is malformed; a time is printed as a row of strokes; the
  table is the two captions and the lines of the two sides.
\<close>

definition example_Key :: "string \<Rightarrow> nat option" where
  "example_Key s =
     (if s \<noteq> [] \<and> list_all (\<lambda>c. c \<in> set ''0123456789'') s
      then Some (foldl (\<lambda>n c. 10 * n + (of_char c - 48)) 0 s) else None)"

definition example_strftime :: "time \<Rightarrow> string" where
  "example_strftime t = replicate t (CHR ''|'')"

definition example_make_table :: "string list \<Rightarrow> string list \<Rightarrow> string \<Rightarrow> string \<Rightarrow> string" where
  "example_make_table a b da db = da @ '': '' @ concat a @ '' / '' @ db @ '': '' @ concat b"

section \<open>The matcher and the scan\<close>

lemma plus_iter_rel:
  "(\<And>a b. b \<in> set (f a) \<Longrightarrow> R a b) \<Longrightarrow> (\<And>a b c. R a b \<Longrightarrow> R b c \<Longrightarrow> R a c)
   \<Longrightarrow> st' \<in> set (plus_iter f s st) \<Longrightarrow> R st st'"
proof (induction f s st arbitrary: st' rule: plus_iter.induct)
  case (1 f s st)
  from "1.prems"(3) obtain m where m: "m \<in> set (f st)"
    and st': "st' \<in> set ((if fst st < fst m \<and> fst m \<le> length s
                             then plus_iter f s m else []) @ [m])"
    by (subst (asm) plus_iter.simps) auto
  have fm: "R st m"
    using "1.prems"(1) [OF m] .
  show ?case
  proof (cases "st' = m")
    case True
    then show ?thesis using fm by simp
  next
    case False
    with st' have c: "fst st < fst m \<and> fst m \<le> length s" and in': "st' \<in> set (plus_iter f s m)"
      by (auto split: if_splits)
    have "R m st'"
      using "1.IH" [OF m c "1.prems"(1) "1.prems"(2) in'] .
    with fm show ?thesis by (rule "1.prems"(2))
  qed
qed

lemma advances_trans: "advances s a b \<Longrightarrow> advances s b c \<Longrightarrow> advances s a c"
  by (auto simp: advances_def)

lemma ends_bounds: "st' \<in> set (ends r s st) \<Longrightarrow> advances s st st'"
proof (induction r arbitrary: st st')
  case (Lit w)
  then have eq: "take (length w) (drop (fst st) s) = w" and st': "fst st' = fst st + length w"
    by (auto split: if_splits)
  from arg_cong [OF eq, of length] have "min (length w) (length s - fst st) = length w"
    by simp
  then show ?case using st' by (auto simp: advances_def)
next
  case (Seq a b)
  then obtain m where "m \<in> set (ends a s st)" "st' \<in> set (ends b s m)" by auto
  with Seq.IH(1) [of m st] Seq.IH(2) [of st' m] show ?case by (auto simp: advances_def)
next
  case (Plus r)
  have "st' \<in> set (plus_iter (ends r s) s st)" using Plus.prems by simp
  then show ?case
    using plus_iter_rel [where R = "advances s" and f = "ends r s"] Plus.IH advances_trans
    by blast
qed (auto simp: advances_def split: if_splits)

lemma match_at_bounds:
  "match_at r s p = Some (e, c) \<Longrightarrow> p \<le> e \<and> (p \<le> length s \<longrightarrow> e \<le> length s)"
  using ends_bounds [of "(e, c)" r s "(p, [])"]
  by (auto simp: match_at_def advances_def split: list.splits)

lemma list_all_upt: "list_all P [a ..< b] = (\<forall>q. a \<le> q \<and> q < b \<longrightarrow> P q)"
  by (auto simp: list_all_iff)

lemma all_from_step: "P p \<Longrightarrow> \<forall>q. Suc p \<le> q \<and> q < n \<longrightarrow> P q \<Longrightarrow> \<forall>q. p \<le> q \<and> q < n \<longrightarrow> P q"
  by (metis Suc_leI le_neq_implies_less)

lemma finditer_leftmost: "leftmost_matches r s p (finditer r s p)"
proof (induction r s p rule: finditer.induct)
  case (1 r s p)
  show ?case
  proof (cases "length s < p")
    case True
    then show ?thesis by (subst finditer.simps) simp
  next
    case False
    then have p: "p \<le> length s" by simp
    show ?thesis
    proof (cases "match_at r s p")
      case None
      have ih: "leftmost_matches r s (Suc p) (finditer r s (Suc p))"
        using "1.IH"(1) [OF False None] .
      have fi: "finditer r s p = finditer r s (Suc p)"
        using False None by (subst finditer.simps) simp
      show ?thesis
      proof (cases "finditer r s (Suc p)")
        case Nil
        with ih fi None p show ?thesis
          using all_from_step [of "\<lambda>q. match_at r s q = None" p "Suc (length s)"]
          by (simp add: list_all_upt del: upt_Suc)
      next
        case (Cons m ms)
        with ih fi None p show ?thesis
          using all_from_step [of "\<lambda>q. match_at r s q = None" p "m_start m"]
          by (simp add: list_all_upt del: upt_Suc)
      qed
    next
      case (Some a)
      obtain e c where a: "a = (e, c)" by (cases a)
      have b: "p \<le> e" "e \<le> length s"
        using match_at_bounds [of r s p e c] Some a p by auto
      have ih: "leftmost_matches r s (if e \<le> p then Suc p else e)
                  (finditer r s (if e \<le> p then Suc p else e))"
        using "1.IH"(2) [OF False Some a [symmetric]] .
      have fi: "finditer r s p =
                  \<lparr>m_string = s, m_start = p, m_end = e, m_caps = c\<rparr>
                    # finditer r s (if e \<le> p then Suc p else e)"
        using False Some a by (subst finditer.simps) simp
      show ?thesis
      proof (cases "e = p")
        case True
        with ih fi Some a b show ?thesis by (simp add: list_all_upt del: upt_Suc)
      next
        case False
        with b have "\<not> e \<le> p" by simp
        with ih fi Some a b False show ?thesis by (simp add: list_all_upt del: upt_Suc)
      qed
    qed
  qed
qed

lemma run_loop_emit:
  "(case run_loop rep s ms off parts st of
      (Inl e, st') \<Rightarrow> (Inl e, st')
    | (Inr (ps, o'), st') \<Rightarrow> (Inr (concat (ps @ [drop o' s])), st'))
   = (case emit rep s off ms st of
        (Inl e, st') \<Rightarrow> (Inl e, st')
      | (Inr t, st') \<Rightarrow> (Inr (concat parts @ t), st'))"
proof (induction ms arbitrary: off parts st)
  case Nil
  show ?case by simp
next
  case (Cons m ms)
  show ?case
  proof (cases "rep m st")
    case (Pair x st1)
    show ?thesis
    proof (cases x)
      case (Inl e)
      with Pair show ?thesis by simp
    next
      case (Inr t)
      with Pair Cons.IH [of "m_end m" "parts @ [slice s off (m_start m), t]" st1]
      show ?thesis by (simp split: prod.splits sum.splits)
    qed
  qed
qed

lemma run_emit: "run r rep s st = emit rep s 0 (finditer r s 0) st"
  using run_loop_emit [where rep = rep and s = s and ms = "finditer r s 0" and off = 0
      and parts = "[]" and st = st]
  by (simp add: run_def split: prod.splits sum.splits)

lemma slice_join: "a \<le> b \<Longrightarrow> b \<le> length s \<Longrightarrow> slice s a b @ drop b s = drop a s"
  using append_take_drop_id [of "b - a" "drop a s"] by (simp add: slice_def)

lemma spans_ordered_mono: "spans_ordered s b ms \<Longrightarrow> a \<le> b \<Longrightarrow> spans_ordered s a ms"
  by (cases ms) auto

lemma leftmost_spans_ordered: "leftmost_matches r s off ms \<Longrightarrow> spans_ordered s off ms"
proof (induction ms arbitrary: off)
  case Nil
  show ?case by simp
next
  case (Cons m ms)
  let ?n = "if m_end m = m_start m then Suc (m_end m) else m_end m"
  from Cons.prems have "leftmost_matches r s ?n ms" by simp
  then have "spans_ordered s ?n ms" by (rule Cons.IH)
  then have "spans_ordered s (m_end m) ms" by (rule spans_ordered_mono) simp
  with Cons.prems show ?case by simp
qed

lemma emit_matched_text:
  "spans_ordered s off ms \<Longrightarrow> emit matched_text s off ms st = (Inr (drop off s), st)"
proof (induction ms arbitrary: off)
  case Nil
  show ?case by simp
next
  case (Cons m ms)
  from Cons.prems have b: "off \<le> m_start m" "m_start m \<le> m_end m" "m_end m \<le> length s"
    "m_string m = s" and rest: "spans_ordered s (m_end m) ms" by auto
  have "emit matched_text s (m_end m) ms st = (Inr (drop (m_end m) s), st)"
    using rest by (rule Cons.IH)
  moreover have "matched_text m st = (Inr (slice s (m_start m) (m_end m)), st)"
    using b by (simp add: matched_text_def)
  ultimately show ?case
    using b slice_join [of off "m_start m" s] slice_join [of "m_start m" "m_end m" s]
    by simp
qed

subsection \<open>Members of a scan\<close>

lemma match_at_in_ends: "match_at r s p = Some st' \<Longrightarrow> st' \<in> set (ends r s (p, []))"
  by (auto simp: match_at_def split: list.splits)

lemma leftmost_member:
  "leftmost_matches r s off ms \<Longrightarrow> m \<in> set ms \<Longrightarrow>
     m_string m = s \<and> off \<le> m_start m \<and> m_end m \<le> length s
     \<and> match_at r s (m_start m) = Some (m_end m, m_caps m)"
proof (induction ms arbitrary: off)
  case Nil
  then show ?case by simp
next
  case (Cons a ms)
  let ?n = "if m_end a = m_start a then Suc (m_end a) else m_end a"
  show ?case
  proof (cases "m = a")
    case True
    with Cons.prems show ?thesis by simp
  next
    case False
    with Cons.prems have "leftmost_matches r s ?n ms" and "m \<in> set ms" by auto
    then have "m_string m = s \<and> ?n \<le> m_start m \<and> m_end m \<le> length s
      \<and> match_at r s (m_start m) = Some (m_end m, m_caps m)" by (rule Cons.IH)
    moreover have "off \<le> ?n" using Cons.prems(1) by auto
    ultimately show ?thesis by simp
  qed
qed

lemma finditer_member:
  "m \<in> set (finditer r s 0) \<Longrightarrow>
     m_string m = s \<and> m_end m \<le> length s
     \<and> (m_end m, m_caps m) \<in> set (ends r s (m_start m, []))"
  using leftmost_member [OF finditer_leftmost, of m r s 0] match_at_in_ends by blast


subsection \<open>Repetition of a character set\<close>

lemma run_of_trans: "run_of P s a b \<Longrightarrow> run_of P s b c \<Longrightarrow> run_of P s a c"
  unfolding run_of_def by (metis (no_types, lifting) less_trans not_le_imp_less)

lemma plus_NotSet:
  "st' \<in> set (ends (Plus (NotSet cs)) s st) \<Longrightarrow> run_of (\<lambda>c. c \<notin> set cs) s st st'"
proof -
  assume "st' \<in> set (ends (Plus (NotSet cs)) s st)"
  then have "st' \<in> set (plus_iter (ends (NotSet cs) s) s st)" by simp
  moreover have "\<And>a b. b \<in> set (ends (NotSet cs) s a) \<Longrightarrow> run_of (\<lambda>c. c \<notin> set cs) s a b"
    by (auto simp: run_of_def le_less_Suc_eq split: if_splits)
  ultimately show ?thesis
    using plus_iter_rel [where R = "run_of (\<lambda>c. c \<notin> set cs) s"] run_of_trans by blast
qed

lemma plus_Set:
  "st' \<in> set (ends (Plus (Set cs)) s st) \<Longrightarrow> run_of (\<lambda>c. c \<in> set cs) s st st'"
proof -
  assume "st' \<in> set (ends (Plus (Set cs)) s st)"
  then have "st' \<in> set (plus_iter (ends (Set cs) s) s st)" by simp
  moreover have "\<And>a b. b \<in> set (ends (Set cs) s a) \<Longrightarrow> run_of (\<lambda>c. c \<in> set cs) s a b"
    by (auto simp: run_of_def le_less_Suc_eq split: if_splits)
  ultimately show ?thesis
    using plus_iter_rel [where R = "run_of (\<lambda>c. c \<in> set cs) s"] run_of_trans by blast
qed

subsection \<open>The matcher, constructor by constructor\<close>

lemma ends_SeqE:
  assumes "st' \<in> set (ends (Seq a b) s st)"
  obtains m where "m \<in> set (ends a s st)" and "st' \<in> set (ends b s m)"
  using assms by auto

lemma ends_GrpE:
  assumes "st' \<in> set (ends (Grp n r) s st)"
  obtains m where "m \<in> set (ends r s st)" and "st' = (fst m, (n, fst st, fst m) # snd m)"
  using assms by auto

lemma ends_LitD:
  "st' \<in> set (ends (Lit w) s st) \<Longrightarrow> length w = n \<Longrightarrow>
     take n (drop (fst st) s) = w \<and> st' = (fst st + n, snd st)"
  by (auto split: if_splits)

lemma ends_SetD:
  "st' \<in> set (ends (Set cs) s st) \<Longrightarrow>
     fst st < length s \<and> s ! fst st \<in> set cs \<and> st' = (Suc (fst st), snd st)"
  by (auto split: if_splits)

lemma ends_NotSetD:
  "st' \<in> set (ends (NotSet cs) s st) \<Longrightarrow>
     fst st < length s \<and> s ! fst st \<notin> set cs \<and> st' = (Suc (fst st), snd st)"
  by (auto split: if_splits)

lemma ends_WordBD:
  "st' \<in> set (ends WordB s st) \<Longrightarrow> at_boundary s (fst st) \<and> st' = st"
  by (auto split: if_splits)

lemma ends_AltD:
  "st' \<in> set (ends (Alt a b) s st) \<Longrightarrow> st' \<in> set (ends a s st) \<or> st' \<in> set (ends b s st)"
  by auto

lemma take_drop_nth:
  "take (length w) (drop q s) = w \<Longrightarrow> i < length w \<Longrightarrow> q + i < length s \<and> s ! (q + i) = w ! i"
proof -
  assume eq: "take (length w) (drop q s) = w" and i: "i < length w"
  from arg_cong [OF eq, of length] have len: "length w \<le> length s - q" by simp
  with i have lt: "q + i < length s" by simp
  have "w ! i = take (length w) (drop q s) ! i" using eq by simp
  also have "\<dots> = s ! (q + i)" using i lt by simp
  finally show ?thesis using lt by simp
qed

subsection \<open>The matches of \<open>HideReferers\<close>\<close>

lemma HideReferers_ends:
  assumes "st' \<in> set (ends HideReferers_regexp s (p, c0))"
  shows \<open>\<exists>e. st' = (e, (1, p + 6, e - 1) # c0) \<and> p + 12 \<le> e \<and> e \<le> length s
      \<and> take 6 (drop p s) = ''href="'' \<and> take 4 (drop (p + 6) s) = ''http''
      \<and> (\<forall>i. p + 10 \<le> i \<and> i < e - 1 \<longrightarrow> s ! i \<noteq> CHR 0x22) \<and> s ! (e - 1) = CHR 0x22\<close>
proof -
  from assms [unfolded HideReferers_regexp_def] obtain m1 where
    m1: \<open>m1 \<in> set (ends (Lit ''href="'') s (p, c0))\<close>
    and r1: \<open>st' \<in> set (ends (Seq (Grp 1 (Seq (Lit ''http'') (Plus (NotSet ''"''))))
                                (Lit ''"'')) s m1)\<close>
    by (rule ends_SeqE)
  have l6: \<open>length ''href="'' = 6\<close> and l4: "length ''http'' = 4"
    and l1: \<open>length ''"'' = 1\<close> by simp_all
  from ends_LitD [OF m1 l6] have h: \<open>take 6 (drop p s) = ''href="''\<close> and m1': "m1 = (p + 6, c0)"
    by simp_all
  from r1 obtain m2 where
    m2: \<open>m2 \<in> set (ends (Grp 1 (Seq (Lit ''http'') (Plus (NotSet ''"'')))) s m1)\<close>
    and r2: \<open>st' \<in> set (ends (Lit ''"'') s m2)\<close>
    by (rule ends_SeqE)
  from m2 obtain m3 where
    m3: \<open>m3 \<in> set (ends (Seq (Lit ''http'') (Plus (NotSet ''"''))) s m1)\<close>
    and m2': "m2 = (fst m3, (1, fst m1, fst m3) # snd m3)"
    by (rule ends_GrpE)
  from m3 obtain m4 where
    m4: \<open>m4 \<in> set (ends (Lit ''http'') s m1)\<close>
    and r4: \<open>m3 \<in> set (ends (Plus (NotSet ''"'')) s m4)\<close>
    by (rule ends_SeqE)
  from ends_LitD [OF m4 l4] m1' have t: \<open>take 4 (drop (p + 6) s) = ''http''\<close>
    and m4': "m4 = (p + 10, c0)"
    by simp_all
  from plus_NotSet [OF r4] m4' have r: "p + 10 < fst m3" "fst m3 \<le> length s" "snd m3 = c0"
    "\<forall>i. p + 10 \<le> i \<and> i < fst m3 \<longrightarrow> s ! i \<noteq> CHR 0x22"
    by (simp_all add: run_of_def)
  from ends_LitD [OF r2 l1] m2' have q: \<open>take 1 (drop (fst m3) s) = ''"''\<close>
    and st': "st' = (fst m3 + 1, (1, fst m1, fst m3) # snd m3)"
    by simp_all
  from take_drop_nth [of \<open>''"''\<close> "fst m3" s 0] q have q': "fst m3 < length s" "s ! fst m3 = CHR 0x22"
    by simp_all
  show ?thesis
    using h t r q' st' m1' by simp
qed

subsection \<open>\<open>urllib.quote\<close>\<close>

lemma hex_digit_safe: "hex_digit n \<in> set always_safe"
proof -
  have "hex_digit n \<in> set ''0123456789ABCDEF''"
    unfolding hex_digit_def by (rule nth_mem) simp
  then show ?thesis by (auto simp: always_safe_def)
qed

lemma quote_char_chars: "quote_char c = Inr q \<Longrightarrow> set q \<subseteq> set (always_safe @ ''/%'')"
  using hex_digit_safe [of "of_char c div 16"] hex_digit_safe [of "of_char c mod 16"]
  by (auto simp: quote_char_def split: if_splits)

lemma quote_chars: "quote u = Inr q \<Longrightarrow> set q \<subseteq> set (always_safe @ ''/%'')"
proof (induction u arbitrary: q)
  case Nil
  then show ?case by simp
next
  case (Cons c u)
  from Cons.prems obtain a b where a: "quote_char c = Inr a" and b: "quote u = Inr b"
    and q: "q = a @ b" by (auto split: sum.splits)
  from quote_char_chars [OF a] Cons.IH [OF b] q show ?case by simp
qed



lemma quote_raises: "quote u = Inl e \<Longrightarrow> e = KeyError \<and> (\<exists>c \<in> set u. 128 \<le> (of_char c :: nat))"
proof (induction u)
  case Nil
  then show ?case by simp
next
  case (Cons c u)
  show ?case
  proof (cases "quote_char c")
    case (Inl x)
    with Cons.prems have "x = e" by simp
    with Inl show ?thesis by (auto simp: quote_char_def split: if_splits)
  next
    case (Inr a)
    with Cons.prems have "quote u = Inl e" by (auto split: sum.splits)
    with Cons.IH show ?thesis by auto
  qed
qed

lemma urlparse_raises: "urlparse u = Inl e \<Longrightarrow> e = ValueError"
  by (auto simp: urlparse_def Let_def split: if_splits)

subsection \<open>Slices\<close>

lemma slice_split: "a \<le> b \<Longrightarrow> b \<le> c \<Longrightarrow> slice s a c = slice s a b @ slice s b c"
proof -
  assume ab: "a \<le> b" and bc: "b \<le> c"
  have "take (c - a) (drop a s) = take (b - a) (drop a s) @ take (c - b) (drop (b - a) (drop a s))"
    using ab bc take_add [of "b - a" "c - b" "drop a s"] by simp
  then show ?thesis using ab by (simp add: slice_def)
qed

lemma slice_one: "i < length s \<Longrightarrow> slice s i (Suc i) = [s ! i]"
  by (simp add: slice_def take_Suc_conv_app_nth [of 0] hd_drop_conv_nth take_Suc)

lemma slice_take_drop: "slice s a (a + n) = take n (drop a s)"
  by (simp add: slice_def)

lemma slice_set:
  "b \<le> length s \<Longrightarrow> c \<in> set (slice s a b) \<Longrightarrow> \<exists>i. a \<le> i \<and> i < b \<and> s ! i = c"
proof -
  assume b: "b \<le> length s" and "c \<in> set (slice s a b)"
  then obtain j where j: "j < length (slice s a b)" and c: "slice s a b ! j = c"
    by (auto simp: in_set_conv_nth)
  from j b have jb: "j < b - a" by (simp add: slice_def)
  with b c have "s ! (a + j) = c" by (simp add: slice_def)
  with jb show ?thesis by (intro exI [of _ "a + j"]) simp
qed

subsection \<open>A replacement that succeeds on every match\<close>

lemma emit_succeeds:
  "(\<And>m. m \<in> set ms \<Longrightarrow> \<exists>r. rep m st = (Inr r, st)) \<Longrightarrow> \<exists>out. emit rep s off ms st = (Inr out, st)"
proof (induction ms arbitrary: off)
  case Nil
  show ?case by simp
next
  case (Cons m ms)
  from Cons.prems [of m] obtain r where r: "rep m st = (Inr r, st)" by auto
  from Cons.IH [of "m_end m"] Cons.prems obtain out where
    "emit rep s (m_end m) ms st = (Inr out, st)" by auto
  with r show ?case by simp
qed

subsection \<open>What \<open>HideReferers\<close> does with a match\<close>

lemma HideReferers_match:
  assumes m: "m \<in> set (finditer HideReferers_regexp s 0)"
  shows \<open>\<exists>url. m_string m = s \<and> m_start m + 12 \<le> m_end m \<and> m_end m \<le> length s
      \<and> url = slice s (m_start m + 6) (m_end m - 1)
      \<and> group m 1 = Some url
      \<and> slice s (m_start m) (m_end m) = ''href="'' @ url @ ''"''
      \<and> prefix ''http'' url \<and> CHR 0x22 \<notin> set url\<close>
proof -
  let ?p = "m_start m" and ?e = "m_end m"
  let ?url = "slice s (?p + 6) (?e - 1)"
  from finditer_member [OF m] have ms: "m_string m = s"
    and en: "(?e, m_caps m) \<in> set (ends HideReferers_regexp s (?p, []))" by simp_all
  from HideReferers_ends [OF en] have caps: "m_caps m = [(1, ?p + 6, ?e - 1)]"
    and len: "?p + 12 \<le> ?e" "?e \<le> length s"
    and h: \<open>take 6 (drop ?p s) = ''href="''\<close> and t: \<open>take 4 (drop (?p + 6) s) = ''http''\<close>
    and nq: "\<forall>i. ?p + 10 \<le> i \<and> i < ?e - 1 \<longrightarrow> s ! i \<noteq> CHR 0x22"
    and q: "s ! (?e - 1) = CHR 0x22"
    by auto
  have g: "group m 1 = Some ?url" using caps ms by (simp add: group_def)
  have s1: \<open>slice s ?p (?p + 6) = ''href="''\<close> using h by (simp add: slice_take_drop)
  have s2: "slice s (?p + 6) (?p + 10) = ''http''"
    using t slice_take_drop [of s "?p + 6" 4] by (simp add: add.assoc)
  have s3: \<open>slice s (?e - 1) ?e = ''"''\<close>
    using slice_one [of "?e - 1" s] len q by simp
  have "slice s ?p ?e = slice s ?p (?p + 6) @ slice s (?p + 6) ?e"
    using len by (intro slice_split) simp_all
  also have "slice s (?p + 6) ?e = ?url @ slice s (?e - 1) ?e"
    using len by (intro slice_split) simp_all
  finally have whole: \<open>slice s ?p ?e = ''href="'' @ ?url @ ''"''\<close>
    using s1 s3 by simp
  have u: "?url = slice s (?p + 6) (?p + 10) @ slice s (?p + 10) (?e - 1)"
    using len by (intro slice_split) simp_all
  then have pre: "prefix ''http'' ?url" using s2 by simp
  have noq: "CHR 0x22 \<notin> set ?url"
  proof
    assume "CHR 0x22 \<in> set ?url"
    with u s2 have "CHR 0x22 \<in> set (slice s (?p + 10) (?e - 1))" by simp
    moreover have "?e - 1 \<le> length s" using len by simp
    ultimately obtain i where "?p + 10 \<le> i" "i < ?e - 1" "s ! i = CHR 0x22"
      using slice_set [of "?e - 1" s "CHR 0x22" "?p + 10"] by blast
    with nq show False by blast
  qed
  show ?thesis using ms len g whole pre noq by simp
qed

lemma HideReferers_replace_match:
  assumes m: "m \<in> set (finditer HideReferers_regexp s 0)"
  shows \<open>HideReferers_replace m st =
     (case urlparse (slice s (m_start m + 6) (m_end m - 1)) of
        Inl e \<Rightarrow> (Inl e, st)
      | Inr parsed \<Rightarrow>
          (case quote (slice s (m_start m + 6) (m_end m - 1)) of
             Inl e \<Rightarrow> (Inl e, st)
           | Inr quoted \<Rightarrow>
               (Inr (''href="'' @ (''http://www.google.com/url?sa=D&amp;q='' @ quoted) @ ''"''),
                st)))\<close>
proof -
  from HideReferers_match [OF m]
  have g: "group m 1 = Some (slice s (m_start m + 6) (m_end m - 1))" by auto
  show ?thesis by (simp only: HideReferers_replace_def g option.case)
qed


subsection \<open>Evaluated scans\<close>

lemma autolink_example_matches:
  \<open>finditer AutoLink_regexp ''See http://example.com/page for info.'' 0
   = [\<lparr>m_string = ''See http://example.com/page for info.'', m_start = 3, m_end = 27,
       m_caps = [(2, 4, 27), (3, 4, 8), (1, 3, 4)]\<rparr>]\<close>
  by code_simp

subsection \<open>The matches of \<open>_VALID_WIKINAME\<close>\<close>

lemma chars_between_trans:
  "chars_between P s n a b \<Longrightarrow> chars_between P s n b c \<Longrightarrow> chars_between P s n a c"
  unfolding chars_between_def by (metis (no_types, lifting) add_leD1 le_trans not_le_imp_less)

lemma run_of_chars_between: "run_of P s a b \<Longrightarrow> chars_between P s 1 a b"
  by (auto simp: run_of_def chars_between_def)

lemma upper_digit_word: "c \<in> set upper_digit \<Longrightarrow> c \<in> set word_chars"
  by (simp add: word_chars_def)

lemma wikiname_segment:
  assumes "b \<in> set (ends (Grp 2 (Seq (Grp 3 (Set upper_digit)) (Plus (Set word_chars)))) s a)"
  shows "chars_between (\<lambda>c. c \<in> set word_chars) s 2 a b"
proof -
  from assms obtain m where
    m: "m \<in> set (ends (Seq (Grp 3 (Set upper_digit)) (Plus (Set word_chars))) s a)"
    and b: "b = (fst m, (2, fst a, fst m) # snd m)"
    by (rule ends_GrpE)
  from m obtain m1 where m1: "m1 \<in> set (ends (Grp 3 (Set upper_digit)) s a)"
    and r: "m \<in> set (ends (Plus (Set word_chars)) s m1)"
    by (rule ends_SeqE)
  from m1 obtain m0 where m0: "m0 \<in> set (ends (Set upper_digit) s a)"
    and m1': "m1 = (fst m0, (3, fst a, fst m0) # snd m0)"
    by (rule ends_GrpE)
  from ends_SetD [OF m0] have u: "fst a < length s" "s ! fst a \<in> set upper_digit"
    "fst m0 = Suc (fst a)" by simp_all
  from plus_Set [OF r] m1' u have w: "Suc (fst a) < fst m" "fst m \<le> length s"
    "\<forall>i. Suc (fst a) \<le> i \<and> i < fst m \<longrightarrow> s ! i \<in> set word_chars"
    by (simp_all add: run_of_def)
  have "s ! i \<in> set word_chars" if "fst a \<le> i" "i < fst m" for i
  proof (cases "i = fst a")
    case True
    with u upper_digit_word show ?thesis by simp
  next
    case False
    with that w show ?thesis by simp
  qed
  with w b show ?thesis by (simp add: chars_between_def)
qed

lemma wikiname_ends:
  assumes "st' \<in> set (ends VALID_WIKINAME s (p, c0))"
  shows "p + 4 \<le> fst st' \<and> fst st' \<le> length s \<and> s ! p \<in> set upper_digit
         \<and> (\<forall>i. p \<le> i \<and> i < fst st' \<longrightarrow> s ! i \<in> set word_chars)"
proof -
  let ?seg = "Grp 2 (Seq (Grp 3 (Set upper_digit)) (Plus (Set word_chars)))"
  from assms [unfolded VALID_WIKINAME_def] obtain m1 where
    m1: "m1 \<in> set (ends (Grp 1 (Set upper_digit)) s (p, c0))"
    and r1: "st' \<in> set (ends (Seq (Plus (Set word_chars)) (Plus ?seg)) s m1)"
    by (rule ends_SeqE)
  from m1 obtain m0 where m0: "m0 \<in> set (ends (Set upper_digit) s (p, c0))"
    and m1': "m1 = (fst m0, (1, fst (p, c0), fst m0) # snd m0)"
    by (rule ends_GrpE)
  from ends_SetD [OF m0] have u: "p < length s" "s ! p \<in> set upper_digit" "fst m0 = Suc p"
    by simp_all
  from r1 obtain m2 where m2: "m2 \<in> set (ends (Plus (Set word_chars)) s m1)"
    and r2: "st' \<in> set (ends (Plus ?seg) s m2)"
    by (rule ends_SeqE)
  from plus_Set [OF m2] m1' u have w: "Suc p < fst m2" "fst m2 \<le> length s"
    "\<forall>i. Suc p \<le> i \<and> i < fst m2 \<longrightarrow> s ! i \<in> set word_chars"
    by (simp_all add: run_of_def)
  from r2 have "st' \<in> set (plus_iter (ends ?seg s) s m2)" by simp
  then have "chars_between (\<lambda>c. c \<in> set word_chars) s 2 m2 st'"
    using plus_iter_rel [where R = "chars_between (\<lambda>c. c \<in> set word_chars) s 2"
        and f = "ends ?seg s"] wikiname_segment chars_between_trans
    by blast
  then have t: "fst m2 + 2 \<le> fst st'" "fst st' \<le> length s"
    "\<forall>i. fst m2 \<le> i \<and> i < fst st' \<longrightarrow> s ! i \<in> set word_chars"
    by (simp_all add: chars_between_def)
  have "s ! i \<in> set word_chars" if pi: "p \<le> i" and ie: "i < fst st'" for i
  proof (cases "i = p")
    case True
    with u upper_digit_word show ?thesis by simp
  next
    case False
    with pi have sp: "Suc p \<le> i" by simp
    show ?thesis
    proof (cases "i < fst m2")
      case True
      with sp w show ?thesis by simp
    next
      case False
      with ie t show ?thesis by simp
    qed
  qed
  with u w t show ?thesis by simp
qed

subsection \<open>The existence of a page\<close>

lemma Page_exists_iff:
  "fst (Page_exists name w) =
     (mc_entities w (''page_'' @ name) \<noteq> None
      \<or> (\<exists>e \<in> set (datastore w). e_kind e = PageKind \<and> e_name e = strip_underscores name))"
proof (cases "mc_entities w (''page_'' @ name)")
  case (Some d)
  then show ?thesis by (simp add: Page_exists_def Page_load_def Page_init_def)
next
  case None
  show ?thesis
  proof (cases "query_name PageKind (strip_underscores name) w")
    case Nil
    then have "\<not> (\<exists>e \<in> set (datastore w). e_kind e = PageKind \<and> e_name e = strip_underscores name)"
      by (auto simp: query_name_def filter_empty_conv)
    with None Nil show ?thesis
      by (simp add: Page_exists_def Page_load_def Page_init_def datetime_now_def)
  next
    case (Cons e es)
    then have "e \<in> set (query_name PageKind (strip_underscores name) w)" by simp
    then have "\<exists>e \<in> set (datastore w). e_kind e = PageKind \<and> e_name e = strip_underscores name"
      by (auto simp: query_name_def)
    with None Cons show ?thesis
      by (simp add: Page_exists_def Page_load_def Page_init_def)
  qed
qed

lemma WikiWords_replace_eq:
  \<open>WikiWords_replace m w =
     (Inr (if fst (Page_exists (slice (m_string m) (m_start m) (m_end m)) w)
           then ''<a class="wikiword" href="/'' @ slice (m_string m) (m_start m) (m_end m)
                @ ''">'' @ slice (m_string m) (m_start m) (m_end m) @ ''</a>''
           else ''<a title="'' @ slice (m_string m) (m_start m) (m_end m)
                @ '' does not exist yet. Click to create it." class="wikiword_new" href="/''
                @ slice (m_string m) (m_start m) (m_end m) @ ''?mode=edit">''
                @ slice (m_string m) (m_start m) (m_end m) @ ''?</a>''),
      snd (Page_exists (slice (m_string m) (m_start m) (m_end m)) w))\<close>
  by (cases "Page_exists (slice (m_string m) (m_start m) (m_end m)) w")
     (simp add: WikiWords_replace_def group_def)

subsection \<open>The matches of \<open>AutoLink\<close>\<close>

lemma take_shorter: "take n xs = w \<Longrightarrow> k \<le> n \<Longrightarrow> take k xs = take k w"
  by (metis min.absorb1 take_take)

lemma AutoLink_ends:
  assumes "st' \<in> set (ends AutoLink_regexp s (p, []))"
  shows "p < length s \<and> s ! p \<noteq> CHR 0x22 \<and> at_boundary s (Suc p)
         \<and> take 4 (drop (Suc p) s) = ''http''
         \<and> Suc p < fst st' \<and> fst st' \<le> length s
         \<and> map_of (snd st') 1 = Some (p, Suc p)
         \<and> map_of (snd st') 2 = Some (Suc p, fst st')"
proof -
  let ?tail = \<open>Seq (Lit ''://'') (Seq (Plus (NotSet url_stop)) (NotSet (url_stop @ ''.'')))\<close>
  let ?url = \<open>Seq (Grp 3 (Alt (Lit ''http'') (Lit ''https''))) ?tail\<close>
  from assms [unfolded AutoLink_regexp_def] obtain m1 where
    m1: \<open>m1 \<in> set (ends (Grp 1 (NotSet ''"'')) s (p, []))\<close>
    and r1: "st' \<in> set (ends (Seq WordB (Grp 2 ?url)) s m1)"
    by (rule ends_SeqE)
  from m1 obtain m0 where m0: \<open>m0 \<in> set (ends (NotSet ''"'') s (p, []))\<close>
    and m1': "m1 = (fst m0, (1, p, fst m0) # snd m0)"
    by (rule ends_GrpE) simp
  from ends_NotSetD [OF m0] have c: "p < length s" "s ! p \<noteq> CHR 0x22" "m0 = (Suc p, [])"
    by simp_all
  with m1' have m1'': "m1 = (Suc p, [(1, p, Suc p)])" by simp
  from r1 obtain m2 where m2: "m2 \<in> set (ends WordB s m1)"
    and r2: "st' \<in> set (ends (Grp 2 ?url) s m2)"
    by (rule ends_SeqE)
  from ends_WordBD [OF m2] m1'' have b: "at_boundary s (Suc p)" "m2 = (Suc p, [(1, p, Suc p)])"
    by simp_all
  from r2 obtain m3 where m3: "m3 \<in> set (ends ?url s m2)"
    and st': "st' = (fst m3, (2, fst m2, fst m3) # snd m3)"
    by (rule ends_GrpE)
  from m3 obtain m4 where m4: "m4 \<in> set (ends (Grp 3 (Alt (Lit ''http'') (Lit ''https''))) s m2)"
    and r4: "m3 \<in> set (ends ?tail s m4)"
    by (rule ends_SeqE)
  from m4 obtain m5 where m5: "m5 \<in> set (ends (Alt (Lit ''http'') (Lit ''https'')) s m2)"
    and m4': "m4 = (fst m5, (3, fst m2, fst m5) # snd m5)"
    by (rule ends_GrpE)
  have l4: "length ''http'' = 4" and l5: "length ''https'' = 5" by simp_all
  from ends_AltD [OF m5] have h: "take 4 (drop (Suc p) s) = ''http'' \<and> snd m5 = [(1, p, Suc p)]
    \<and> Suc p \<le> fst m5"
  proof
    assume "m5 \<in> set (ends (Lit ''http'') s m2)"
    from ends_LitD [OF this l4] b show ?thesis by simp
  next
    assume "m5 \<in> set (ends (Lit ''https'') s m2)"
    from ends_LitD [OF this l5] b have t5: "take 5 (drop (Suc p) s) = ''https''"
      and m5': "m5 = (Suc p + 5, [(1, p, Suc p)])" by simp_all
    from take_shorter [OF t5, of 4] have "take 4 (drop (Suc p) s) = ''http''" by simp
    with m5' show ?thesis by simp
  qed
  from ends_bounds [OF r4] have adv: "fst m4 \<le> fst m3 \<and> (fst m4 \<le> length s \<longrightarrow> fst m3 \<le> length s)"
    by (simp add: advances_def)
  from ends_bounds [OF m5] b c have "fst m5 \<le> length s" by (simp add: advances_def)
  with adv m4' have le: "fst m5 \<le> fst m3" "fst m3 \<le> length s" by simp_all
  from r4 obtain m6 where m6: "m6 \<in> set (ends (Lit ''://'') s m4)"
    and r6: \<open>m3 \<in> set (ends (Seq (Plus (NotSet url_stop)) (NotSet (url_stop @ ''.''))) s m6)\<close>
    by (rule ends_SeqE)
  have l3: "length ''://'' = 3" by simp
  from ends_LitD [OF m6 l3] m4' have m6': "m6 = (fst m5 + 3, (3, fst m2, fst m5) # snd m5)"
    by simp
  from ends_bounds [OF r6] m6' have "fst m5 + 3 \<le> fst m3" by (simp add: advances_def)
  with h have lt: "Suc p < fst m3" by simp
  from r6 obtain m7 where m7: "m7 \<in> set (ends (Plus (NotSet url_stop)) s m6)"
    and r7: \<open>m3 \<in> set (ends (NotSet (url_stop @ ''.'')) s m7)\<close>
    by (rule ends_SeqE)
  from plus_NotSet [OF m7] have "snd m7 = snd m6" by (simp add: run_of_def)
  with ends_NotSetD [OF r7] m6' have "snd m3 = (3, fst m2, fst m5) # snd m5" by simp
  with h b st' have caps: "snd st' = [(2, Suc p, fst m3), (3, Suc p, fst m5), (1, p, Suc p)]"
    by simp
  show ?thesis
    using c b h lt le st' caps by simp
qed

lemma AutoLink_match:
  assumes m: "m \<in> set (finditer AutoLink_regexp s 0)"
  shows "m_string m = s \<and> m_start m < length s \<and> s ! m_start m \<noteq> CHR 0x22
         \<and> take 4 (drop (Suc (m_start m)) s) = ''http''
         \<and> Suc (m_start m) < m_end m \<and> m_end m \<le> length s
         \<and> group m 1 = Some [s ! m_start m]
         \<and> group m 2 = Some (slice s (Suc (m_start m)) (m_end m))"
proof -
  let ?p = "m_start m" and ?e = "m_end m"
  from finditer_member [OF m] have ms: "m_string m = s"
    and en: "(?e, m_caps m) \<in> set (ends AutoLink_regexp s (?p, []))" by simp_all
  from AutoLink_ends [OF en] have c: "?p < length s" "s ! ?p \<noteq> CHR 0x22"
    "take 4 (drop (Suc ?p) s) = ''http''" "Suc ?p < ?e" "?e \<le> length s"
    and g1: "map_of (m_caps m) 1 = Some (?p, Suc ?p)"
    and g2: "map_of (m_caps m) 2 = Some (Suc ?p, ?e)"
    by simp_all
  have "group m 1 = Some (slice s ?p (Suc ?p))" using g1 ms by (simp add: group_def)
  with slice_one [OF c(1)] have a: "group m 1 = Some [s ! ?p]" by simp
  have b: "group m 2 = Some (slice s (Suc ?p) ?e)" using g2 ms by (simp add: group_def)
  from ms c a b show ?thesis by simp
qed

lemma AutoLink_replace_match:
  assumes m: "m \<in> set (finditer AutoLink_regexp s 0)"
  shows \<open>AutoLink_replace m st =
     (Inr (s ! m_start m # (''<a class="autourl" href="'' @ slice s (Suc (m_start m)) (m_end m)
           @ ''">'' @ slice s (Suc (m_start m)) (m_end m) @ ''</a>'')), st)\<close>
  using AutoLink_match [OF m] by (simp add: AutoLink_replace_def percent_s_def)

lemma http_not_before_6:
  assumes "take 4 (drop (Suc p) (''http://'' @ t)) = ''http''"
  shows "6 \<le> p"
proof (rule ccontr)
  assume "\<not> 6 \<le> p"
  then have "p = 0 \<or> p = 1 \<or> p = 2 \<or> p = 3 \<or> p = 4 \<or> p = 5" by arith
  with assms show False by (elim disjE) simp_all
qed

lemma https_not_before_7:
  assumes "take 4 (drop (Suc p) (''https://'' @ t)) = ''http''"
  shows "7 \<le> p"
proof (rule ccontr)
  assume "\<not> 7 \<le> p"
  then have "p = 0 \<or> p = 1 \<or> p = 2 \<or> p = 3 \<or> p = 4 \<or> p = 5 \<or> p = 6" by arith
  with assms show False by (elim disjE) simp_all
qed

lemma AutoLink_run_prefix:
  assumes "\<forall>m \<in> set (finditer AutoLink_regexp s 0). n \<le> Suc (m_start m)"
  shows "\<exists>out. run AutoLink_regexp AutoLink_replace s st = (Inr out, st) \<and> take n out = take n s"
proof (cases "finditer AutoLink_regexp s 0")
  case Nil
  then show ?thesis by (simp add: run_emit)
next
  case (Cons m ms)
  let ?p = "m_start m"
  have m: "m \<in> set (finditer AutoLink_regexp s 0)" using Cons by simp
  have ok: "\<exists>r. AutoLink_replace x st = (Inr r, st)" if "x \<in> set ms" for x
    using AutoLink_replace_match [of x s st] that Cons by simp
  from emit_succeeds [of ms AutoLink_replace st s "m_end m", OF ok] obtain ro where
    ro: "emit AutoLink_replace s (m_end m) ms st = (Inr ro, st)" by blast
  from AutoLink_replace_match [OF m, of st] obtain x where
    r: "AutoLink_replace m st = (Inr (s ! ?p # x), st)" by blast
  from AutoLink_match [OF m] have p: "?p < length s" by simp
  from assms m have n: "n \<le> Suc ?p" by blast
  define a where "a = slice s 0 ?p"
  have e1: "a @ [s ! ?p] = take (Suc ?p) s"
    using p by (simp add: a_def slice_def take_Suc_conv_app_nth)
  have "a @ (s ! ?p # x) @ ro = (a @ [s ! ?p]) @ (x @ ro)" by simp
  also have "\<dots> = take (Suc ?p) s @ (x @ ro)" by (simp only: e1)
  finally have "take n (a @ (s ! ?p # x) @ ro) = take n (take (Suc ?p) s @ (x @ ro))"
    by (rule arg_cong)
  also have "\<dots> = take n s" using n p by (simp add: min_def)
  finally have "take n (slice s 0 ?p @ (s ! ?p # x) @ ro) = take n s"
    unfolding a_def .
  with Cons ro r show ?thesis by (simp add: run_emit)
qed

subsection \<open>History entries and their identifiers\<close>

lemma load_from_history_malformed:
  "Key v = None \<Longrightarrow> load_from_history Key name v w = Inl BadKeyError"
  by (simp add: load_from_history_def)

lemma load_from_history_absent:
  assumes "Key v = Some k" and "\<not> stored_history name k w"
  shows "load_from_history Key name v w = Inr None"
proof -
  from assms(2) have "filter (\<lambda>e. e_key e = Some k) (query_name PageHistoryKind name w) = []"
    by (auto simp: stored_history_def query_name_def filter_empty_conv list_ex_iff)
  with assms(1) show ?thesis by (simp add: load_from_history_def)
qed

lemma load_from_history_wellformed:
  "Key v = Some k \<Longrightarrow> \<exists>q. load_from_history Key name v w = Inr q"
  by (simp add: load_from_history_def split: list.splits)


subsection \<open>A replacement that raises\<close>



subsection \<open>The authors of history entries\<close>


lemma history_has_authors_datastore:
  "datastore w' = datastore w \<Longrightarrow> history_has_authors w' = history_has_authors w"
  by (simp add: history_has_authors_def)








section \<open>Claims\<close>

text \<open>
  C1. For every pattern, replacement and text, \<open>Transform.run\<close> scans the text from left
  to right for the leftmost matches, which do not overlap, and returns the text between
  the matches unchanged with the replacement of each match in its place and the rest of
  the text after the last match. A text without a match is returned unchanged, and
  putting the matched text back for every match gives the input.
\<close>

theorem run_leftmost_matches_preserve_rest:
  "leftmost_matches regexp content 0 (finditer regexp content 0)
   \<and> spans_ordered content 0 (finditer regexp content 0)
   \<and> run regexp replace content st = emit replace content 0 (finditer regexp content 0) st
   \<and> (finditer regexp content 0 = [] \<longrightarrow> run regexp replace content st = (Inr content, st))
   \<and> run regexp matched_text content st = (Inr content, st)"
proof -
  have lm: "leftmost_matches regexp content 0 (finditer regexp content 0)"
    by (rule finditer_leftmost)
  then have so: "spans_ordered content 0 (finditer regexp content 0)"
    by (rule leftmost_spans_ordered)
  have "run regexp matched_text content st = (Inr content, st)"
    using emit_matched_text [OF so, of st] by (simp add: run_emit)
  with lm so show ?thesis by (simp add: run_emit)
qed

theorem run_leftmost_matches_preserve_rest_witness:
  \<open>finditer HideReferers_regexp ''<a href="/FooBar">'' 0 = []
   \<and> run HideReferers_regexp HideReferers_replace ''<a href="/FooBar">'' ()
       = (Inr ''<a href="/FooBar">'', ())\<close>
proof -
  have h: \<open>finditer HideReferers_regexp ''<a href="/FooBar">'' 0 = []\<close>
    by code_simp
  show ?thesis
    using h run_leftmost_matches_preserve_rest
      [of HideReferers_regexp \<open>''<a href="/FooBar">''\<close> HideReferers_replace "()"]
    by simp
qed




text \<open>
  C5, as the claim states it: the original URL is carried in a parameter named \<open>target\<close>.
  The rewritten \<open>href\<close> of a concrete anchor does not contain \<open>target=\<close>.
\<close>

theorem HideReferers_parameter_is_not_target:
  \<open>fst (run HideReferers_regexp HideReferers_replace ''<a href="http://a/b c">'' ())
     = Inr ''<a href="http://www.google.com/url?sa=D&amp;q=http%3A//a/b%20c">''
   \<and> \<not> sublist ''target='' ''<a href="http://www.google.com/url?sa=D&amp;q=http%3A//a/b%20c">''\<close>
  by code_simp

text \<open>
  C5, amended. For every match of \<open>HideReferers\<close>, the URL is the text of group 1 (between
  \<open>href="\<close> and the closing quote). Whenever the replacement returns, the substituted
  attribute value is \<open>http://www.google.com/url?sa=D&amp;q=\<close> followed by the URL-encoded
  URL: the parameter that carries the URL is named \<open>q\<close>, and the encoded URL consists of
  letters, digits and the characters \<open>_.-/%\<close> only. The replacement returns when neither
  \<open>urlparse\<close> nor \<open>quote\<close> raises on the URL.
\<close>

theorem HideReferers_indirection_parameter_q:
  \<open>\<forall>m \<in> set (finditer HideReferers_regexp content 0). \<exists>url.
      group m 1 = Some url
    \<and> url = slice content (m_start m + 6) (m_end m - 1)
    \<and> (\<forall>r st'. HideReferers_replace m st = (Inr r, st')
          \<longrightarrow> (\<exists>quoted. quote url = Inr quoted
                \<and> r = ''href="'' @ (''http://www.google.com/url?sa=D&amp;q='' @ quoted) @ ''"''
                \<and> set quoted \<subseteq> set (always_safe @ ''/%'')
                \<and> st' = st))
    \<and> ((\<exists>parsed quoted. urlparse url = Inr parsed \<and> quote url = Inr quoted)
          \<longrightarrow> (\<exists>r. HideReferers_replace m st = (Inr r, st)))\<close>
proof
  fix m
  assume m: "m \<in> set (finditer HideReferers_regexp content 0)"
  define url where "url = slice content (m_start m + 6) (m_end m - 1)"
  let ?E = "''http://www.google.com/url?sa=D&amp;q=''"
  from HideReferers_match [OF m] have g: "group m 1 = Some url" unfolding url_def by auto
  note r = HideReferers_replace_match [OF m, of st, folded url_def]
  have a: \<open>\<exists>quoted. quote url = Inr quoted
                \<and> r' = ''href="'' @ (?E @ quoted) @ ''"''
                \<and> set quoted \<subseteq> set (always_safe @ ''/%'')
                \<and> st' = st\<close> if "HideReferers_replace m st = (Inr r', st')" for r' st'
    using that r quote_chars [of url] by (auto split: sum.splits)
  have b: "\<exists>r'. HideReferers_replace m st = (Inr r', st)"
    if "\<exists>parsed quoted. urlparse url = Inr parsed \<and> quote url = Inr quoted"
    using that r by auto
  from g a b
  show \<open>\<exists>url.
      group m 1 = Some url
    \<and> url = slice content (m_start m + 6) (m_end m - 1)
    \<and> (\<forall>r st'. HideReferers_replace m st = (Inr r, st')
          \<longrightarrow> (\<exists>quoted. quote url = Inr quoted
                \<and> r = ''href="'' @ (?E @ quoted) @ ''"''
                \<and> set quoted \<subseteq> set (always_safe @ ''/%'')
                \<and> st' = st))
    \<and> ((\<exists>parsed quoted. urlparse url = Inr parsed \<and> quote url = Inr quoted)
          \<longrightarrow> (\<exists>r. HideReferers_replace m st = (Inr r, st)))\<close>
    unfolding url_def [symmetric] by (intro exI [of _ url]) blast
qed

theorem HideReferers_indirection_parameter_q_witness:
  \<open>\<lparr>m_string = ''x href="http://a/?b=c"'', m_start = 2, m_end = 22, m_caps = [(1, 8, 21)]\<rparr>
     \<in> set (finditer HideReferers_regexp ''x href="http://a/?b=c"'' 0)
   \<and> HideReferers_replace
        \<lparr>m_string = ''x href="http://a/?b=c"'', m_start = 2, m_end = 22, m_caps = [(1, 8, 21)]\<rparr> ()
       = (Inr ''href="http://www.google.com/url?sa=D&amp;q=http%3A//a/%3Fb%3Dc"'', ())\<close>
proof -
  let ?c = \<open>''x href="http://a/?b=c"''\<close>
  let ?m = "\<lparr>m_string = ?c, m_start = 2, m_end = 22, m_caps = [(1, 8, 21)]\<rparr>"
  let ?u = "slice ?c (m_start ?m + 6) (m_end ?m - 1)"
  have f: "finditer HideReferers_regexp ?c 0 = [?m]" by code_simp
  have m: "?m \<in> set (finditer HideReferers_regexp ?c 0)"
    unfolding f by (rule list.set_intros(1))
  have q: "quote ?u = Inr ''http%3A//a/%3Fb%3Dc''" by code_simp
  have p: "urlparse ?u = Inr ''a''" by code_simp
  from HideReferers_indirection_parameter_q [of ?c "()", THEN bspec, OF m]
  have ret: "(\<exists>parsed quoted. urlparse ?u = Inr parsed \<and> quote ?u = Inr quoted)
          \<longrightarrow> (\<exists>r. HideReferers_replace ?m () = (Inr r, ()))"
    and val: \<open>\<forall>r st'. HideReferers_replace ?m () = (Inr r, st')
          \<longrightarrow> (\<exists>quoted. quote ?u = Inr quoted
                \<and> r = ''href="'' @ (''http://www.google.com/url?sa=D&amp;q='' @ quoted) @ ''"''
                \<and> set quoted \<subseteq> set (always_safe @ ''/%'')
                \<and> st' = ())\<close>
    by blast+
  from ret p q obtain r where r: "HideReferers_replace ?m () = (Inr r, ())" by blast
  from val r obtain quoted where "quote ?u = Inr quoted"
    and \<open>r = ''href="'' @ (''http://www.google.com/url?sa=D&amp;q='' @ quoted) @ ''"''\<close> by blast
  with q have \<open>r = ''href="http://www.google.com/url?sa=D&amp;q=http%3A//a/%3Fb%3Dc"''\<close>
    by simp
  with r m show ?thesis by simp
qed

text \<open>
  C6. On the input \<open>See http://example.com/page for info.\<close> the \<open>AutoLink\<close> transform
  returns the input with the URL wrapped in an anchor of class \<open>autourl\<close>: the space
  before the URL is kept, and the text after the URL, with the full stop at the end of the
  sentence, follows the anchor unchanged.
\<close>

theorem AutoLink_example:
  \<open>run AutoLink_regexp AutoLink_replace ''See http://example.com/page for info.'' st
   = (Inr ''See <a class="autourl" href="http://example.com/page">http://example.com/page</a> for info.'', st)\<close>
  by (simp add: run_def autolink_example_matches AutoLink_replace_def group_def slice_def
      percent_s_def)

text \<open>
  C3, as the claim states it: no match of the pattern of \<open>WikiWords\<close> contains an
  underscore. The scan of \<open>Foo_Bar\<close> finds one match, the whole text, which contains an
  underscore: \<open>\w\<close> matches the underscore.
\<close>

theorem wikiname_accepts_underscore:
  \<open>finditer VALID_WIKINAME ''Foo_Bar'' 0
   = [\<lparr>m_string = ''Foo_Bar'', m_start = 0, m_end = 7,
       m_caps = [(2, 4, 7), (3, 4, 5), (1, 0, 1)]\<rparr>]
   \<and> CHR ''_'' \<in> set (slice ''Foo_Bar'' 0 7)\<close>
  by code_simp

text \<open>
  C3, amended. For every content, every match of the pattern of \<open>WikiWords\<close> consists of
  letters, digits and underscores only, so no other separator occurs in a match; it
  starts with an upper-case letter or a digit, so its first character is not an
  underscore; and it has at least four characters.
\<close>

theorem WikiWords_matches_are_word_characters:
  "\<forall>m \<in> set (finditer VALID_WIKINAME content 0).
      set (slice content (m_start m) (m_end m)) \<subseteq> set word_chars
    \<and> content ! m_start m \<in> set upper_digit
    \<and> content ! m_start m \<noteq> CHR ''_''
    \<and> m_start m + 4 \<le> m_end m \<and> m_end m \<le> length content"
proof
  fix m
  assume m: "m \<in> set (finditer VALID_WIKINAME content 0)"
  let ?p = "m_start m" and ?e = "m_end m"
  from finditer_member [OF m] have
    en: "(?e, m_caps m) \<in> set (ends VALID_WIKINAME content (?p, []))" by simp
  from wikiname_ends [OF en] have len: "?p + 4 \<le> ?e" "?e \<le> length content"
    and u: "content ! ?p \<in> set upper_digit"
    and w: "\<forall>i. ?p \<le> i \<and> i < ?e \<longrightarrow> content ! i \<in> set word_chars"
    by simp_all
  have sub: "set (slice content ?p ?e) \<subseteq> set word_chars"
  proof
    fix c
    assume "c \<in> set (slice content ?p ?e)"
    with slice_set [OF len(2)] obtain i where "?p \<le> i" "i < ?e" "content ! i = c" by blast
    with w show "c \<in> set word_chars" by blast
  qed
  have "CHR ''_'' \<notin> set upper_digit" by (simp add: upper_digit_def)
  with u have nu: "content ! ?p \<noteq> CHR ''_''" by metis
  from sub u nu len
  show "set (slice content ?p ?e) \<subseteq> set word_chars
    \<and> content ! ?p \<in> set upper_digit
    \<and> content ! ?p \<noteq> CHR ''_''
    \<and> ?p + 4 \<le> ?e \<and> ?e \<le> length content"
    by (intro conjI)
qed

theorem WikiWords_matches_are_word_characters_witness:
  "\<lparr>m_string = ''a Foo_Bar-b'', m_start = 2, m_end = 9,
     m_caps = [(2, 6, 9), (3, 6, 7), (1, 2, 3)]\<rparr>
     \<in> set (finditer VALID_WIKINAME ''a Foo_Bar-b'' 0)
   \<and> set (slice ''a Foo_Bar-b'' 2 9) \<subseteq> set word_chars
   \<and> ''a Foo_Bar-b'' ! 2 \<noteq> CHR ''_''"
proof -
  let ?c = "''a Foo_Bar-b''"
  let ?m = "\<lparr>m_string = ?c, m_start = 2, m_end = 9,
     m_caps = [(2, 6, 9), (3, 6, 7), (1, 2, 3)]\<rparr>"
  have f: "finditer VALID_WIKINAME ?c 0 = [?m]" by code_simp
  have m: "?m \<in> set (finditer VALID_WIKINAME ?c 0)"
    unfolding f by (rule list.set_intros(1))
  note t = WikiWords_matches_are_word_characters [of ?c, THEN bspec, OF m]
  from t have a: "set (slice ?c (m_start ?m) (m_end ?m)) \<subseteq> set word_chars" by (rule conjunct1)
  from t have b: "?c ! m_start ?m \<noteq> CHR ''_''" by (elim conjE)
  from a have a': "set (slice ?c 2 9) \<subseteq> set word_chars" by simp
  from b have b': "?c ! 2 \<noteq> CHR ''_''" by simp
  from m a' b' show ?thesis by (intro conjI)
qed

text \<open>
  C2. For every match and every world, \<open>WikiWords.replace\<close> returns an anchor chosen by
  \<open>Page.exists\<close> on the matched token: for a page that exists the anchor of class
  \<open>wikiword\<close> with the \<open>href\<close> \<open>/token\<close>, otherwise the anchor of class \<open>wikiword_new\<close>
  with the \<open>href\<close> \<open>/token?mode=edit\<close> and a title that says that the page does not exist
  yet. \<open>Page.exists\<close> holds when memcache has the page or the datastore has a page of
  that name without its underscores. In the world after a first save of \<open>FooBar\<close>,
  where \<open>FooBar\<close> exists and \<open>BazQux\<close> does not, the text \<open>FooBar and BazQux\<close> becomes
  the two anchors.
\<close>

theorem WikiWords_replace_by_page_existence:
  \<open>(let wikiword = slice (m_string m) (m_start m) (m_end m)
    in WikiWords_replace m w =
        (Inr (if fst (Page_exists wikiword w)
              then ''<a class="wikiword" href="/'' @ wikiword @ ''">'' @ wikiword @ ''</a>''
              else ''<a title="'' @ wikiword
                   @ '' does not exist yet. Click to create it." class="wikiword_new" href="/''
                   @ wikiword @ ''?mode=edit">'' @ wikiword @ ''?</a>''),
         snd (Page_exists wikiword w)))
   \<and> fst (Page_exists name w) =
        (mc_entities w (''page_'' @ name) \<noteq> None
         \<or> (\<exists>e \<in> set (datastore w). e_kind e = PageKind \<and> e_name e = strip_underscores name))
   \<and> fst (Page_exists ''FooBar'' (snd (post ''FooBar'' ''<p>Hello</p>'' ''10.0.0.1'' ''first''
             (empty_world (Some \<lparr>nickname = ''ann''\<rparr>)))))
   \<and> \<not> fst (Page_exists ''BazQux'' (snd (post ''FooBar'' ''<p>Hello</p>'' ''10.0.0.1'' ''first''
             (empty_world (Some \<lparr>nickname = ''ann''\<rparr>)))))
   \<and> fst (run VALID_WIKINAME WikiWords_replace ''FooBar and BazQux'' (snd (post ''FooBar'' ''<p>Hello</p>'' ''10.0.0.1'' ''first''
             (empty_world (Some \<lparr>nickname = ''ann''\<rparr>)))))
       = Inr ''<a class="wikiword" href="/FooBar">FooBar</a> and <a title="BazQux does not exist yet. Click to create it." class="wikiword_new" href="/BazQux?mode=edit">BazQux?</a>''\<close>
proof -
  have 1: \<open>fst (Page_exists ''FooBar'' (snd (post ''FooBar'' ''<p>Hello</p>'' ''10.0.0.1'' ''first''
             (empty_world (Some \<lparr>nickname = ''ann''\<rparr>)))))\<close>
    by code_simp
  have 2: \<open>\<not> fst (Page_exists ''BazQux'' (snd (post ''FooBar'' ''<p>Hello</p>'' ''10.0.0.1'' ''first''
             (empty_world (Some \<lparr>nickname = ''ann''\<rparr>)))))\<close>
    by code_simp
  have 3: \<open>fst (run VALID_WIKINAME WikiWords_replace ''FooBar and BazQux'' (snd (post ''FooBar'' ''<p>Hello</p>'' ''10.0.0.1'' ''first''
             (empty_world (Some \<lparr>nickname = ''ann''\<rparr>)))))
       = Inr ''<a class="wikiword" href="/FooBar">FooBar</a> and <a title="BazQux does not exist yet. Click to create it." class="wikiword_new" href="/BazQux?mode=edit">BazQux?</a>''\<close>
    by code_simp
  show ?thesis
    unfolding Let_def
    by (intro conjI) (rule WikiWords_replace_eq Page_exists_iff 1 2 3)+
qed

theorem WikiWords_replace_by_page_existence_witness:
  \<open>fst (WikiWords_replace
          \<lparr>m_string = ''FooBar and BazQux'', m_start = 0, m_end = 6,
           m_caps = [(2, 3, 6), (3, 3, 4), (1, 0, 1)]\<rparr> (snd (post ''FooBar'' ''<p>Hello</p>'' ''10.0.0.1'' ''first''
             (empty_world (Some \<lparr>nickname = ''ann''\<rparr>)))))
   = Inr ''<a class="wikiword" href="/FooBar">FooBar</a>''\<close>
proof -
  let ?m = "\<lparr>m_string = ''FooBar and BazQux'', m_start = 0, m_end = 6,
           m_caps = [(2, 3, 6), (3, 3, 4), (1, 0, 1)]\<rparr>"
  let ?w = \<open>(snd (post ''FooBar'' ''<p>Hello</p>'' ''10.0.0.1'' ''first''
             (empty_world (Some \<lparr>nickname = ''ann''\<rparr>))))\<close>
  note t = WikiWords_replace_by_page_existence [of ?m ?w "''FooBar''"]
  have s: "slice (m_string ?m) (m_start ?m) (m_end ?m) = ''FooBar''" by code_simp
  from t have e: "fst (Page_exists ''FooBar'' ?w)" by (elim conjE)
  from t [THEN conjunct1, unfolded Let_def s] e show ?thesis by simp
qed

text \<open>
  C10. The pattern of \<open>AutoLink\<close> captures one character before the URL. For every content
  that begins with \<open>http://\<close> or \<open>https://\<close> the pattern does not match at position 0, no
  match starts before position 6, and the URL of every match (group 2) starts one
  position after the start of the match, behind a character that is not a double quote:
  the URL at position 0 is not the URL of any match. \<open>AutoLink\<close> does not raise, and its
  output begins with the same \<open>http://\<close> or \<open>https://\<close> as plain text.
\<close>

theorem AutoLink_skips_leading_url:
  assumes "prefix ''http://'' content \<or> prefix ''https://'' content"
  shows "match_at AutoLink_regexp content 0 = None
    \<and> (\<forall>m \<in> set (finditer AutoLink_regexp content 0).
          6 \<le> m_start m \<and> content ! m_start m \<noteq> CHR 0x22
        \<and> group m 2 = Some (slice content (Suc (m_start m)) (m_end m)))
    \<and> (\<exists>out. run AutoLink_regexp AutoLink_replace content st = (Inr out, st)
          \<and> (prefix ''http://'' content \<longrightarrow> take 7 out = ''http://'')
          \<and> (prefix ''https://'' content \<longrightarrow> take 8 out = ''https://''))"
proof -
  have far: "(prefix ''http://'' content \<longrightarrow> 6 \<le> p) \<and> (prefix ''https://'' content \<longrightarrow> 7 \<le> p)"
    if "take 4 (drop (Suc p) content) = ''http''" for p
    using that http_not_before_6 https_not_before_7 by (auto simp: prefix_def)
  have six: "6 \<le> p" if "take 4 (drop (Suc p) content) = ''http''" for p
    using far [OF that] assms by auto
  have 1: "match_at AutoLink_regexp content 0 = None"
  proof (cases "match_at AutoLink_regexp content 0")
    case None
    then show ?thesis .
  next
    case (Some st')
    from AutoLink_ends [OF match_at_in_ends [OF Some]] six [of 0] show ?thesis by simp
  qed
  have 2: "6 \<le> m_start m \<and> content ! m_start m \<noteq> CHR 0x22
        \<and> group m 2 = Some (slice content (Suc (m_start m)) (m_end m))"
    if m: "m \<in> set (finditer AutoLink_regexp content 0)" for m
    using AutoLink_match [OF m] six [of "m_start m"] by simp
  have s7: "\<forall>m \<in> set (finditer AutoLink_regexp content 0). 7 \<le> Suc (m_start m)"
    using 2 by auto
  from AutoLink_run_prefix [OF s7, of st] obtain out where
    out: "run AutoLink_regexp AutoLink_replace content st = (Inr out, st)"
    and t7: "take 7 out = take 7 content" by blast
  have h7: "take 7 out = ''http://''" if "prefix ''http://'' content"
    using that t7 by (auto simp: prefix_def)
  have h8: "take 8 out = ''https://''" if p: "prefix ''https://'' content"
  proof -
    have "\<forall>m \<in> set (finditer AutoLink_regexp content 0). 8 \<le> Suc (m_start m)"
      using AutoLink_match far p by fastforce
    from AutoLink_run_prefix [OF this, of st] out have "take 8 out = take 8 content" by simp
    with p show ?thesis by (auto simp: prefix_def)
  qed
  from 1 2 out h7 h8 show ?thesis by blast
qed

theorem AutoLink_skips_leading_url_witness:
  "prefix ''http://'' ''http://example.com/page''
   \<and> match_at AutoLink_regexp ''http://example.com/page'' 0 = None
   \<and> run AutoLink_regexp AutoLink_replace ''http://example.com/page'' ()
       = (Inr ''http://example.com/page'', ())"
proof -
  have p: "prefix ''http://'' ''http://example.com/page''" by simp
  have r: "run AutoLink_regexp AutoLink_replace ''http://example.com/page'' ()
       = (Inr ''http://example.com/page'', ())" by code_simp
  from AutoLink_skips_leading_url [of "''http://example.com/page''" "()"] p
  have "match_at AutoLink_regexp ''http://example.com/page'' 0 = None" by blast
  with p r show ?thesis by (intro conjI)
qed




text \<open>
  C8, as the claim states it: when either identifier is well-formed and does not resolve,
  \<open>diff_history\<close> returns \<open>None\<close>. After a first save of \<open>FooBar\<close> the identifier \<open>7\<close> is
  well-formed and does not resolve; with a malformed second identifier \<open>diff_history\<close>
  raises BadKeyError, because both identifiers are decoded before the test for \<open>None\<close>.
\<close>

theorem diff_history_absent_and_malformed_raises:
  "example_Key ''7'' = Some 7
   \<and> \<not> stored_history ''FooBar'' 7
        (snd (post ''FooBar'' ''<p>one</p>'' ''10.0.0.1'' ''first''
               (empty_world (Some \<lparr>nickname = ''ann''\<rparr>))))
   \<and> example_Key ''x'' = None
   \<and> diff_history example_strftime example_make_table example_Key
       (fst (Page_load ''FooBar''
         (snd (post ''FooBar'' ''<p>one</p>'' ''10.0.0.1'' ''first''
                (empty_world (Some \<lparr>nickname = ''ann''\<rparr>))))))
       ''7'' ''x''
       (snd (post ''FooBar'' ''<p>one</p>'' ''10.0.0.1'' ''first''
              (empty_world (Some \<lparr>nickname = ''ann''\<rparr>))))
     = Inl BadKeyError"
  by code_simp

text \<open>
  C8, amended. For every page and every pair of identifiers: when both identifiers are
  well-formed and one of them does not resolve to a stored history entry of the page,
  \<open>diff_history\<close> returns \<open>None\<close>; when one of the identifiers is malformed,
  \<open>diff_history\<close> raises BadKeyError, whatever the other identifier is.
\<close>

theorem diff_history_absent_is_None:
  "(\<forall>k1 k2. Key v1 = Some k1 \<and> Key v2 = Some k2
       \<and> (\<not> stored_history (p_name p) k1 w \<or> \<not> stored_history (p_name p) k2 w)
       \<longrightarrow> diff_history strftime make_table Key p v1 v2 w = Inr None)
   \<and> (Key v1 = None \<or> Key v2 = None
       \<longrightarrow> diff_history strftime make_table Key p v1 v2 w = Inl BadKeyError)"
proof (intro conjI allI impI)
  fix k1 k2
  assume a: "Key v1 = Some k1 \<and> Key v2 = Some k2
    \<and> (\<not> stored_history (p_name p) k1 w \<or> \<not> stored_history (p_name p) k2 w)"
  then have k: "Key v1 = Some k1" "Key v2 = Some k2" by simp_all
  from load_from_history_wellformed [of Key v1 k1 "p_name p" w] k(1) obtain q1 where
    q1: "load_from_history Key (p_name p) v1 w = Inr q1" by blast
  from load_from_history_wellformed [of Key v2 k2 "p_name p" w] k(2) obtain q2 where
    q2: "load_from_history Key (p_name p) v2 w = Inr q2" by blast
  from a have "q1 = None \<or> q2 = None"
    using load_from_history_absent [of Key v1 k1 "p_name p" w]
      load_from_history_absent [of Key v2 k2 "p_name p" w] k q1 q2 by auto
  with q1 q2 show "diff_history strftime make_table Key p v1 v2 w = Inr None"
    by (auto simp: diff_history_def split: option.splits)
next
  assume "Key v1 = None \<or> Key v2 = None"
  then show "diff_history strftime make_table Key p v1 v2 w = Inl BadKeyError"
  proof
    assume "Key v1 = None"
    then show ?thesis by (simp add: diff_history_def load_from_history_malformed)
  next
    assume n: "Key v2 = None"
    show ?thesis
    proof (cases "Key v1")
      case None
      then show ?thesis by (simp add: diff_history_def load_from_history_malformed)
    next
      case (Some k)
      from load_from_history_wellformed [of Key v1 k "p_name p" w] Some obtain q where
        "load_from_history Key (p_name p) v1 w = Inr q" by blast
      with n show ?thesis by (simp add: diff_history_def load_from_history_malformed)
    qed
  qed
qed

theorem diff_history_absent_is_None_witness:
  "example_Key ''1'' = Some 1 \<and> example_Key ''7'' = Some 7
   \<and> \<not> stored_history ''FooBar'' 7
        (snd (post ''FooBar'' ''<p>one</p>'' ''10.0.0.1'' ''first''
               (empty_world (Some \<lparr>nickname = ''ann''\<rparr>))))
   \<and> diff_history example_strftime example_make_table example_Key
       (fst (Page_load ''FooBar''
         (snd (post ''FooBar'' ''<p>one</p>'' ''10.0.0.1'' ''first''
                (empty_world (Some \<lparr>nickname = ''ann''\<rparr>))))))
       ''1'' ''7''
       (snd (post ''FooBar'' ''<p>one</p>'' ''10.0.0.1'' ''first''
              (empty_world (Some \<lparr>nickname = ''ann''\<rparr>))))
     = Inr None"
proof -
  let ?w = "snd (post ''FooBar'' ''<p>one</p>'' ''10.0.0.1'' ''first''
              (empty_world (Some \<lparr>nickname = ''ann''\<rparr>)))"
  let ?p = "fst (Page_load ''FooBar'' ?w)"
  have k1: "example_Key ''1'' = Some 1" and k7: "example_Key ''7'' = Some 7" by code_simp+
  have n: "p_name ?p = ''FooBar''" by code_simp
  have a: "\<not> stored_history ''FooBar'' 7 ?w" by code_simp
  note t = diff_history_absent_is_None [of example_Key "''1''" "''7''" ?p ?w
      example_strftime example_make_table, THEN conjunct1, THEN spec, of 1, THEN spec, of 7,
      THEN mp]
  have "diff_history example_strftime example_make_table example_Key ?p ''1'' ''7'' ?w = Inr None"
    by (rule t) (simp only: k1 k7 n a simp_thms)
  with k1 k7 a show ?thesis by (intro conjI)
qed

text \<open>
  C9. The claim says that the content of the most recent history entry of a page is the
  current content of the page. \<open>Page.load\<close> strips the underscores of a name, \<open>save\<close>
  and \<open>save_to_history\<close> do not: after a save of \<open>FooBar\<close> and a POST to \<open>Foo_Bar\<close> the
  page entity of \<open>FooBar\<close> has the second content, the new history entry has the name
  \<open>Foo_Bar\<close>, and the only history entry of \<open>FooBar\<close> has the first content.
\<close>

theorem save_under_alias_breaks_history_invariant:
  "p_content (fst (Page_load ''FooBar''
      (snd (post ''Foo_Bar'' ''<p>two</p>'' ''10.0.0.1'' ''second''
        (snd (post ''FooBar'' ''<p>one</p>'' ''10.0.0.1'' ''first''
               (empty_world (Some \<lparr>nickname = ''ann''\<rparr>))))))))
     = ''<p>two</p>''
   \<and> map e_content (fetch_history (fst (Page_load ''FooBar''
      (snd (post ''Foo_Bar'' ''<p>two</p>'' ''10.0.0.1'' ''second''
        (snd (post ''FooBar'' ''<p>one</p>'' ''10.0.0.1'' ''first''
               (empty_world (Some \<lparr>nickname = ''ann''\<rparr>))))))))
      (snd (post ''Foo_Bar'' ''<p>two</p>'' ''10.0.0.1'' ''second''
        (snd (post ''FooBar'' ''<p>one</p>'' ''10.0.0.1'' ''first''
               (empty_world (Some \<lparr>nickname = ''ann''\<rparr>)))))))
     = [''<p>one</p>'']
   \<and> map e_name (datastore
      (snd (post ''Foo_Bar'' ''<p>two</p>'' ''10.0.0.1'' ''second''
        (snd (post ''FooBar'' ''<p>one</p>'' ''10.0.0.1'' ''first''
               (empty_world (Some \<lparr>nickname = ''ann''\<rparr>)))))))
     = [''FooBar'', ''FooBar'', ''Foo_Bar'']
   \<and> map e_content (datastore
      (snd (post ''Foo_Bar'' ''<p>two</p>'' ''10.0.0.1'' ''second''
        (snd (post ''FooBar'' ''<p>one</p>'' ''10.0.0.1'' ''first''
               (empty_world (Some \<lparr>nickname = ''ann''\<rparr>)))))))
     = [''<p>two</p>'', ''<p>one</p>'', ''<p>two</p>'']"
  by code_simp

end
